theory Spec2Isabelle
  imports Main "HOL-Library.Sublist"
begin

section \<open>Values, user functions and options\<close>

text \<open>
  The event emitter of the repository (classes \<open>EventEmitter\<close>, \<open>Event\<close> and
  \<open>Execution\<close>) is embedded over an explicit store: \<open>Event\<close> and \<open>Execution\<close>
  objects and the \<open>executions\<close> arrays live in heaps addressed by their index, since
  the code keeps several references to the same object (\<open>eventInstance\<close>, the array a
  running \<open>forEach\<close> iterates) and replaces or mutates arrays while they are shared.

  User functions are opaque to the emitter. A function reference is \<open>NoOp\<close> (the
  default \<open>() => { }\<close> of the class fields) or \<open>UserFn k\<close>; what \<open>UserFn k\<close> does
  when called is given by a program \<open>prog k args\<close>: the calls it makes, synchronously,
  to the public methods of the emitter, and how it ends (it throws, or it returns a
  value or promise that later resolves or rejects).
\<close>

datatype jsval = VUndefined | VBool bool | VNum int | VStr string

type_synonym args = "jsval list"

datatype fn = NoOp | UserFn nat

record EventExpiration =
  exp_expireAfterMs :: int
  exp_callback :: fn

record ExecutionParameters =
  opt_removeAfterExecute :: "bool option"
  opt_expireAfterMs :: "EventExpiration option"
  opt_onlyOneInstance :: "bool option"

datatype action =
    AddEvent string fn "ExecutionParameters option"
  | EmitEvent string args
  | RemoveEvent string
  | RemoveExecution string int
  | RemoveAllEvents

datatype outcome = Throws | Resolves | Rejects

record behaviour =
  actions :: "action list"
  outcome :: outcome

type_synonym program = "nat \<Rightarrow> args \<Rightarrow> behaviour"

datatype completion = Normal | Thrown

section \<open>The objects\<close>

record ExpirationCallback =
  enabled :: bool
  timeMs :: int
  callback :: fn

record Parameters =
  expirationCallback :: ExpirationCallback
  removeAfterExecute :: bool
  onlyOneExecutionAtATime :: bool

record State =
  isExecuting :: bool
  hasExecuted :: bool
  expirationTimeout :: int

record Execution =
  eventInstance :: nat
  executionId :: int
  parameters :: Parameters
  state :: State
  callbackFunction :: fn

record Event =
  eventName :: string
  eventId :: int
  executions :: nat
  executionCounter :: int

text \<open>The object \<open>addEvent\<close> returns; \<open>remove\<close> holds the two variables its closure captures.\<close>

record ListenerActions =
  remove :: "string \<times> int"
  executionId_of :: int
  eventName_of :: string

text \<open>A timer of the host: the \<open>Execution\<close> its closure captured, its delay, and whether it is still due.\<close>

record Timer =
  owner :: nat
  delay :: int
  pending :: bool

text \<open>What user code observes: a call of a subscribed callback, or of an expiration
  callback (with whether the \<open>Execution\<close> was still in its \<open>Event\<close> at that moment).\<close>

datatype obs = Invoked nat args | Expired nat bool

text \<open>
  One \<open>EventEmitter\<close> and its surroundings: the fields of the emitter, the heaps, the
  timers of the host, the calls of \<open>Execution.execute\<close> suspended at their \<open>await\<close>,
  and the observations so far.
\<close>

record world =
  nameId :: string
  events :: "nat list"
  eventIds :: int
  eventHeap :: "Event list"
  executionHeap :: "Execution list"
  arrayHeap :: "nat list list"
  timers :: "Timer list"
  suspended :: "(nat \<times> outcome) list"
  trace :: "obs list"

definition EventEmitter_new :: "string \<Rightarrow> world" where
  "EventEmitter_new name =
     \<lparr>nameId = name, events = [], eventIds = 0, eventHeap = [], executionHeap = [],
      arrayHeap = [], timers = [], suspended = [], trace = []\<rparr>"

definition upd_exec :: "nat \<Rightarrow> (Execution \<Rightarrow> Execution) \<Rightarrow> world \<Rightarrow> world" where
  "upd_exec x f w = w\<lparr>executionHeap := (executionHeap w)[x := f (executionHeap w ! x)]\<rparr>"

definition upd_event :: "nat \<Rightarrow> (Event \<Rightarrow> Event) \<Rightarrow> world \<Rightarrow> world" where
  "upd_event e f w = w\<lparr>eventHeap := (eventHeap w)[e := f (eventHeap w ! e)]\<rparr>"

section \<open>Timers of the host\<close>

definition setTimeout :: "nat \<Rightarrow> int \<Rightarrow> world \<Rightarrow> int \<times> world" where
  "setTimeout x ms w =
     (int (length (timers w)),
      w\<lparr>timers := timers w @ [\<lparr>owner = x, delay = ms, pending = True\<rparr>]\<rparr>)"

definition clearTimeout :: "int \<Rightarrow> world \<Rightarrow> world" where
  "clearTimeout t w =
     (if 0 \<le> t \<and> nat t < length (timers w)
      then w\<lparr>timers := (timers w)[nat t := (timers w ! nat t)\<lparr>pending := False\<rparr>]\<rparr>
      else w)"

section \<open>Execution\<close>

definition default_Execution :: Execution where
  "default_Execution =
     \<lparr>eventInstance = 0, executionId = - 1,
      parameters = \<lparr>expirationCallback = \<lparr>enabled = False, timeMs = - 1, callback = NoOp\<rparr>,
                    removeAfterExecute = False, onlyOneExecutionAtATime = False\<rparr>,
      state = \<lparr>isExecuting = False, hasExecuted = False, expirationTimeout = - 1\<rparr>,
      callbackFunction = NoOp\<rparr>"

definition activateAutomaticCancellation :: "nat \<Rightarrow> world \<Rightarrow> world" where
  "activateAutomaticCancellation x w =
     (let (t, w1) = setTimeout x (timeMs (expirationCallback (parameters (executionHeap w ! x)))) w
      in upd_exec x (\<lambda>X. X\<lparr>state := (state X)\<lparr>expirationTimeout := t\<rparr>\<rparr>) w1)"

definition stopAutomaticCancellation :: "nat \<Rightarrow> world \<Rightarrow> world" where
  "stopAutomaticCancellation x w =
     (let t = expirationTimeout (state (executionHeap w ! x))
      in if t = - 1 then w else clearTimeout t w)"

definition set_removeAfterExecute :: "ExecutionParameters \<Rightarrow> nat \<Rightarrow> world \<Rightarrow> world" where
  "set_removeAfterExecute p x w =
     (case opt_removeAfterExecute p of
        None \<Rightarrow> w
      | Some b \<Rightarrow> upd_exec x (\<lambda>X. X\<lparr>parameters := (parameters X)\<lparr>removeAfterExecute := b\<rparr>\<rparr>) w)"

definition set_expireAfterMs :: "ExecutionParameters \<Rightarrow> nat \<Rightarrow> world \<Rightarrow> world" where
  "set_expireAfterMs p x w =
     (case opt_expireAfterMs p of
        None \<Rightarrow> w
      | Some ex \<Rightarrow>
          activateAutomaticCancellation x
            (upd_exec x (\<lambda>X. X\<lparr>parameters := (parameters X)\<lparr>expirationCallback :=
               \<lparr>enabled = True, timeMs = exp_expireAfterMs ex, callback = exp_callback ex\<rparr>\<rparr>\<rparr>) w))"

definition set_onlyOneInstance :: "ExecutionParameters \<Rightarrow> nat \<Rightarrow> world \<Rightarrow> world" where
  "set_onlyOneInstance p x w =
     (case opt_onlyOneInstance p of
        None \<Rightarrow> w
      | Some b \<Rightarrow> upd_exec x (\<lambda>X. X\<lparr>parameters := (parameters X)\<lparr>onlyOneExecutionAtATime := b\<rparr>\<rparr>) w)"

text \<open>The constructor: the new object is allocated at the end of the heap, then configured.\<close>

definition Execution_new ::
  "nat \<Rightarrow> int \<Rightarrow> fn \<Rightarrow> ExecutionParameters option \<Rightarrow> world \<Rightarrow> nat \<times> world" where
  "Execution_new e i cb params w =
     (let x = length (executionHeap w);
          w0 = w\<lparr>executionHeap := executionHeap w @
                 [default_Execution\<lparr>eventInstance := e, executionId := i, callbackFunction := cb\<rparr>]\<rparr>
      in (x, case params of
               None \<Rightarrow> w0
             | Some p \<Rightarrow> set_onlyOneInstance p x (set_expireAfterMs p x (set_removeAfterExecute p x w0))))"

section \<open>Event\<close>

definition Event_new :: "string \<Rightarrow> int \<Rightarrow> world \<Rightarrow> nat \<times> world" where
  "Event_new name i w =
     (length (eventHeap w),
      w\<lparr>arrayHeap := arrayHeap w @ [[]],
        eventHeap := eventHeap w @
          [\<lparr>eventName = name, eventId = i, executions = length (arrayHeap w), executionCounter = 0\<rparr>]\<rparr>)"

text \<open>\<open>push\<close> changes the array in place: every holder of the array sees the new element.\<close>

definition Event_addExecution ::
  "nat \<Rightarrow> fn \<Rightarrow> ExecutionParameters option \<Rightarrow> world \<Rightarrow> int \<times> world" where
  "Event_addExecution e cb params w =
     (let (x, w1) = Execution_new e (executionCounter (eventHeap w ! e)) cb params w;
          a = executions (eventHeap w1 ! e);
          w2 = w1\<lparr>arrayHeap := (arrayHeap w1)[a := arrayHeap w1 ! a @ [x]]\<rparr>;
          w3 = upd_event e (\<lambda>E. E\<lparr>executionCounter := executionCounter E + 1\<rparr>) w2
      in (executionId (executionHeap w3 ! x), w3))"

text \<open>\<open>filter\<close> builds a new array, which replaces the field; the old array is unchanged.\<close>

definition Event_removeExecution :: "nat \<Rightarrow> int \<Rightarrow> world \<Rightarrow> world" where
  "Event_removeExecution e i w =
     (let kept = filter (\<lambda>x. executionId (executionHeap w ! x) \<noteq> i)
                   (arrayHeap w ! executions (eventHeap w ! e))
      in upd_event e (\<lambda>E. E\<lparr>executions := length (arrayHeap w)\<rparr>)
           (w\<lparr>arrayHeap := arrayHeap w @ [kept]\<rparr>))"

definition Event_getTotalExecutions :: "nat \<Rightarrow> world \<Rightarrow> nat" where
  "Event_getTotalExecutions e w = length (arrayHeap w ! executions (eventHeap w ! e))"

definition Execution_cancel :: "nat \<Rightarrow> world \<Rightarrow> world" where
  "Execution_cancel x w =
     (let w1 = stopAutomaticCancellation x w;
          X = executionHeap w1 ! x
      in Event_removeExecution (eventInstance X) (executionId X) w1)"

text \<open>The statements of \<open>Execution.execute\<close> after its \<open>try\<close> statement.\<close>

definition Execution_afterCallback :: "nat \<Rightarrow> world \<Rightarrow> world" where
  "Execution_afterCallback x w =
     (let w1 = upd_exec x (\<lambda>X. X\<lparr>state := (state X)\<lparr>isExecuting := False, hasExecuted := True\<rparr>\<rparr>) w
      in if removeAfterExecute (parameters (executionHeap w1 ! x)) then Execution_cancel x w1 else w1)"

text \<open>
  \<open>Execution.execute\<close> up to its \<open>await\<close>. \<open>call\<close> is the call of a user function. When
  the callback throws, the \<open>catch\<close> block takes over and the method runs on at once;
  otherwise the method is suspended until the awaited value settles.
\<close>

definition Execution_execute ::
  "(fn \<Rightarrow> args \<Rightarrow> world \<Rightarrow> world \<times> outcome) \<Rightarrow> nat \<Rightarrow> args \<Rightarrow> world \<Rightarrow> world \<times> completion" where
  "Execution_execute call x as w =
     (let w1 = stopAutomaticCancellation x w;
          X = executionHeap w1 ! x
      in if isExecuting (state X) \<and> onlyOneExecutionAtATime (parameters X) then (w1, Normal)
         else
           let w2 = upd_exec x (\<lambda>X. X\<lparr>state := (state X)\<lparr>isExecuting := True\<rparr>\<rparr>) w1;
               (w3, out) = call (callbackFunction X) as (w2\<lparr>trace := trace w2 @ [Invoked x as]\<rparr>)
           in case out of
                Throws \<Rightarrow> (Execution_afterCallback x w3, Normal)
              | _ \<Rightarrow> (w3\<lparr>suspended := suspended w3 @ [(x, out)]\<rparr>, Normal))"

text \<open>
  \<open>Array.prototype.forEach\<close> on the array at address \<open>a\<close>: the length is read once,
  before the first call; at each index the element is read from the array as it is
  then. The third component lists the calls made, in order.
\<close>

fun forEach_from ::
  "(nat \<Rightarrow> args \<Rightarrow> world \<Rightarrow> world \<times> completion) \<Rightarrow> nat \<Rightarrow> args \<Rightarrow> nat \<Rightarrow> nat \<Rightarrow> world
     \<Rightarrow> world \<times> completion \<times> (nat \<times> args) list" where
  "forEach_from f a as k 0 w = (w, Normal, [])"
| "forEach_from f a as k (Suc n) w =
     (if k < length (arrayHeap w ! a)
      then (case f (arrayHeap w ! a ! k) as w of
              (w1, Thrown) \<Rightarrow> (w1, Thrown, [(arrayHeap w ! a ! k, as)])
            | (w1, Normal) \<Rightarrow>
                (case forEach_from f a as (Suc k) n w1 of
                   (w2, c, vis) \<Rightarrow> (w2, c, (arrayHeap w ! a ! k, as) # vis)))
      else forEach_from f a as (Suc k) n w)"

definition Array_forEach ::
  "(nat \<Rightarrow> args \<Rightarrow> world \<Rightarrow> world \<times> completion) \<Rightarrow> nat \<Rightarrow> args \<Rightarrow> world
     \<Rightarrow> world \<times> completion \<times> (nat \<times> args) list" where
  "Array_forEach f a as w = forEach_from f a as 0 (length (arrayHeap w ! a)) w"

definition Event_fanout ::
  "(nat \<Rightarrow> args \<Rightarrow> world \<Rightarrow> world \<times> completion) \<Rightarrow> nat \<Rightarrow> args \<Rightarrow> world
     \<Rightarrow> world \<times> completion \<times> (nat \<times> args) list" where
  "Event_fanout f e as w = Array_forEach f (executions (eventHeap w ! e)) as w"

definition Event_execute ::
  "(nat \<Rightarrow> args \<Rightarrow> world \<Rightarrow> world \<times> completion) \<Rightarrow> nat \<Rightarrow> args \<Rightarrow> world \<Rightarrow> world \<times> completion" where
  "Event_execute f e as w = (case Event_fanout f e as w of (w1, c, vis) \<Rightarrow> (w1, c))"

section \<open>EventEmitter\<close>

definition find_event :: "string \<Rightarrow> world \<Rightarrow> nat option" where
  "find_event name w = List.find (\<lambda>e. eventName (eventHeap w ! e) = name) (events w)"

definition EventEmitter_addEvent ::
  "string \<Rightarrow> fn \<Rightarrow> ExecutionParameters option \<Rightarrow> world \<Rightarrow> ListenerActions \<times> world" where
  "EventEmitter_addEvent name cb params w =
     (let (e, w1) =
            (case find_event name w of
               Some e \<Rightarrow> (e, w)
             | None \<Rightarrow>
                 (let (e, w0) = Event_new name (eventIds w) (w\<lparr>eventIds := eventIds w + 1\<rparr>);
                      w0' = w0\<lparr>eventIds := eventIds w0 + 1\<rparr>
                  in (e, w0'\<lparr>events := events w0' @ [e]\<rparr>)));
          (newExecutionId, w2) = Event_addExecution e cb params w1
      in (\<lparr>remove = (name, newExecutionId), executionId_of = newExecutionId,
           eventName_of = eventName (eventHeap w2 ! e)\<rparr>, w2))"

definition EventEmitter_removeEvent :: "string \<Rightarrow> world \<Rightarrow> world" where
  "EventEmitter_removeEvent name w =
     w\<lparr>events := filter (\<lambda>e. eventName (eventHeap w ! e) \<noteq> name) (events w)\<rparr>"

definition EventEmitter_removeExecution :: "string \<Rightarrow> int \<Rightarrow> world \<Rightarrow> world" where
  "EventEmitter_removeExecution name i w =
     (case find_event name w of
        None \<Rightarrow> w
      | Some e \<Rightarrow>
          (let w1 = Event_removeExecution e i w
           in if Event_getTotalExecutions e w1 = 0
              then w1\<lparr>events := filter (\<lambda>e'. eventName (eventHeap w1 ! e') \<noteq> name) (events w1)\<rparr>
              else w1))"

definition EventEmitter_removeAllEvents :: "world \<Rightarrow> world" where
  "EventEmitter_removeAllEvents w = w\<lparr>events := []\<rparr>"

definition EventEmitter_emitEvent ::
  "(nat \<Rightarrow> args \<Rightarrow> world \<Rightarrow> world \<times> completion) \<Rightarrow> string \<Rightarrow> args \<Rightarrow> world \<Rightarrow> world \<times> completion" where
  "EventEmitter_emitEvent f name as w =
     (case find_event name w of
        None \<Rightarrow> (w, Normal)
      | Some e \<Rightarrow> Event_execute f e as w)"

definition ListenerActions_remove :: "ListenerActions \<Rightarrow> world \<Rightarrow> world" where
  "ListenerActions_remove h w = EventEmitter_removeExecution (fst (remove h)) (snd (remove h)) w"

section \<open>User code and the host\<close>

text \<open>A call made by user code to a public method of the emitter.\<close>

fun do_action ::
  "(nat \<Rightarrow> args \<Rightarrow> world \<Rightarrow> world \<times> completion) \<Rightarrow> action \<Rightarrow> world \<Rightarrow> world \<times> completion" where
  "do_action f (AddEvent name cb params) w = (snd (EventEmitter_addEvent name cb params w), Normal)"
| "do_action f (EmitEvent name as) w = EventEmitter_emitEvent f name as w"
| "do_action f (RemoveEvent name) w = (EventEmitter_removeEvent name w, Normal)"
| "do_action f (RemoveExecution name i) w = (EventEmitter_removeExecution name i w, Normal)"
| "do_action f RemoveAllEvents w = (EventEmitter_removeAllEvents w, Normal)"

fun run_actions ::
  "(nat \<Rightarrow> args \<Rightarrow> world \<Rightarrow> world \<times> completion) \<Rightarrow> action list \<Rightarrow> world \<Rightarrow> world \<times> completion" where
  "run_actions f [] w = (w, Normal)"
| "run_actions f (a # acts) w =
     (case do_action f a w of
        (w1, Thrown) \<Rightarrow> (w1, Thrown)
      | (w1, Normal) \<Rightarrow> run_actions f acts w1)"

definition behaviour_of :: "program \<Rightarrow> fn \<Rightarrow> args \<Rightarrow> behaviour" where
  "behaviour_of prog g as =
     (case g of NoOp \<Rightarrow> \<lparr>actions = [], outcome = Resolves\<rparr> | UserFn k \<Rightarrow> prog k as)"

text \<open>
  The call of a user function with \<open>d\<close> frames of call stack left. With none left the
  call throws (the \<open>RangeError\<close> of the host); otherwise the function makes its calls
  to the emitter, whose \<open>emitEvent\<close> may call further user functions one frame deeper.
\<close>

primrec invoke :: "program \<Rightarrow> nat \<Rightarrow> fn \<Rightarrow> args \<Rightarrow> world \<Rightarrow> world \<times> outcome" where
  "invoke prog 0 g as w = (w, Throws)"
| "invoke prog (Suc d) g as w =
     (case run_actions (Execution_execute (invoke prog d)) (actions (behaviour_of prog g as)) w of
        (w1, Thrown) \<Rightarrow> (w1, Throws)
      | (w1, Normal) \<Rightarrow> (w1, outcome (behaviour_of prog g as)))"

text \<open>The closure \<open>activateAutomaticCancellation\<close> hands to \<open>setTimeout\<close>.\<close>

definition attached :: "nat \<Rightarrow> world \<Rightarrow> bool" where
  "attached x w \<longleftrightarrow>
     x \<in> set (arrayHeap w ! executions (eventHeap w ! eventInstance (executionHeap w ! x)))"

definition timeout_closure ::
  "(fn \<Rightarrow> args \<Rightarrow> world \<Rightarrow> world \<times> outcome) \<Rightarrow> nat \<Rightarrow> world \<Rightarrow> world \<times> completion" where
  "timeout_closure call x w =
     (case call (callback (expirationCallback (parameters (executionHeap w ! x)))) []
             (w\<lparr>trace := trace w @ [Expired x (attached x w)]\<rparr>) of
        (w1, Throws) \<Rightarrow> (w1, Thrown)
      | (w1, _) \<Rightarrow> (Execution_cancel x w1, Normal))"

text \<open>
  What can happen at the top of the call stack: user code calls a method of the emitter,
  a due timer fires, or a suspended \<open>Execution.execute\<close> is resumed because the value it
  awaits has settled (a rejection lands in the empty \<open>catch\<close> block).
\<close>

datatype step = Call action | Fire nat | Resume nat

definition trigger :: "program \<Rightarrow> nat \<Rightarrow> nat \<Rightarrow> args \<Rightarrow> world \<Rightarrow> world \<times> completion" where
  "trigger prog d = Execution_execute (invoke prog d)"

fun do_step :: "program \<Rightarrow> nat \<Rightarrow> step \<Rightarrow> world \<Rightarrow> world \<times> completion" where
  "do_step prog d (Call a) w = do_action (trigger prog d) a w"
| "do_step prog d (Fire t) w =
     (if t < length (timers w) \<and> pending (timers w ! t)
      then timeout_closure (invoke prog d) (owner (timers w ! t))
             (w\<lparr>timers := (timers w)[t := (timers w ! t)\<lparr>pending := False\<rparr>]\<rparr>)
      else (w, Normal))"
| "do_step prog d (Resume i) w =
     (if i < length (suspended w)
      then (Execution_afterCallback (fst (suspended w ! i))
              (w\<lparr>suspended := take i (suspended w) @ drop (Suc i) (suspended w)\<rparr>), Normal)
      else (w, Normal))"

definition run :: "program \<Rightarrow> nat \<Rightarrow> step list \<Rightarrow> world \<Rightarrow> world" where
  "run prog d ss w = fold (\<lambda>s w. fst (do_step prog d s w)) ss w"

section \<open>Sample programs and scenarios\<close>

text \<open>User functions for the concrete scenarios: \<open>UserFn 1\<close> throws, \<open>UserFn 2\<close> returns a
  promise that rejects, \<open>UserFn 3\<close> removes the subscription 2 of event \<open>a\<close> and adds a new
  one, every other function returns normally without calling the emitter.\<close>

definition demo :: program where
  "demo k as =
     (if k = 1 then \<lparr>actions = [], outcome = Throws\<rparr>
      else if k = 2 then \<lparr>actions = [], outcome = Rejects\<rparr>
      else if k = 3 then \<lparr>actions = [RemoveExecution ''a'' 2, AddEvent ''a'' (UserFn 0) None],
                           outcome = Resolves\<rparr>
      else \<lparr>actions = [], outcome = Resolves\<rparr>)"

definition expiring :: ExecutionParameters where
  "expiring =
     \<lparr>opt_removeAfterExecute = None,
      opt_expireAfterMs = Some \<lparr>exp_expireAfterMs = 50, exp_callback = UserFn 0\<rparr>,
      opt_onlyOneInstance = None\<rparr>"

definition once :: ExecutionParameters where
  "once = \<lparr>opt_removeAfterExecute = Some True, opt_expireAfterMs = None, opt_onlyOneInstance = None\<rparr>"

text \<open>Subscribe to \<open>name\<close> and remove the subscription through its handle, \<open>n\<close> times over;
  the ids the subscriptions were given.\<close>

fun churn :: "nat \<Rightarrow> string \<Rightarrow> fn \<Rightarrow> world \<Rightarrow> int list \<times> world" where
  "churn 0 name cb w = ([], w)"
| "churn (Suc n) name cb w =
     (case EventEmitter_addEvent name cb None w of
        (h, w1) \<Rightarrow>
          (case churn n name cb (ListenerActions_remove h w1) of
             (ids, w2) \<Rightarrow> (executionId_of h # ids, w2)))"

text \<open>Three subscriptions to \<open>a\<close>: a one-shot that throws, \<open>UserFn 3\<close>, and a plain one.\<close>

definition three_subscribers :: world where
  "three_subscribers =
     run demo 1 [Call (AddEvent ''a'' (UserFn 1) (Some once)), Call (AddEvent ''a'' (UserFn 3) None),
                 Call (AddEvent ''a'' (UserFn 0) None)] (EventEmitter_new ''r'')"

section \<open>Invariants and relations used in the proofs\<close>

text \<open>The timers that the constructor of \<open>Execution\<close> arms: one, if an expiration was asked for.\<close>

definition new_timers :: "nat \<Rightarrow> ExecutionParameters option \<Rightarrow> Timer list" where
  "new_timers x params =
     (case params of
        None \<Rightarrow> []
      | Some p \<Rightarrow>
          (case opt_expireAfterMs p of
             None \<Rightarrow> []
           | Some ex \<Rightarrow> [\<lparr>owner = x, delay = exp_expireAfterMs ex, pending = True\<rparr>]))"

text \<open>The \<open>parameters\<close> field after the constructor has run its three setters on the options.\<close>

definition new_parameters :: "ExecutionParameters option \<Rightarrow> Parameters" where
  "new_parameters params =
     (case params of
        None \<Rightarrow> parameters default_Execution
      | Some p \<Rightarrow>
          \<lparr>expirationCallback =
             (case opt_expireAfterMs p of
                None \<Rightarrow> expirationCallback (parameters default_Execution)
              | Some ex \<Rightarrow> \<lparr>enabled = True, timeMs = exp_expireAfterMs ex, callback = exp_callback ex\<rparr>),
           removeAfterExecute = (case opt_removeAfterExecute p of None \<Rightarrow> False | Some b \<Rightarrow> b),
           onlyOneExecutionAtATime = (case opt_onlyOneInstance p of None \<Rightarrow> False | Some b \<Rightarrow> b)\<rparr>)"

text \<open>The \<open>Execution\<close> object that the constructor leaves in the heap; \<open>t\<close> is the
  number of timers of the host before the call.\<close>

definition new_Execution :: "nat \<Rightarrow> int \<Rightarrow> fn \<Rightarrow> ExecutionParameters option \<Rightarrow> nat \<Rightarrow> Execution" where
  "new_Execution e i cb params t =
     \<lparr>eventInstance = e, executionId = i, parameters = new_parameters params,
      state = \<lparr>isExecuting = False, hasExecuted = False,
               expirationTimeout = (if new_timers 0 params = [] then - 1 else int t)\<rparr>,
      callbackFunction = cb\<rparr>"

text \<open>The effect of \<open>clearTimeout\<close> on the timers, as \<open>stopAutomaticCancellation\<close> calls it.\<close>

definition stop_timer :: "int \<Rightarrow> Timer list \<Rightarrow> Timer list" where
  "stop_timer t ts =
     (if t \<noteq> - 1 \<and> 0 \<le> t \<and> nat t < length ts then ts[nat t := (ts ! nat t)\<lparr>pending := False\<rparr>] else ts)"

text \<open>A timer handle held by an \<open>Execution\<close> is \<open>-1\<close> or a timer of the host.\<close>

definition timer_ref_ok :: "int \<Rightarrow> nat \<Rightarrow> bool" where
  "timer_ref_ok t n \<longleftrightarrow> t = - 1 \<or> (0 \<le> t \<and> nat t < n)"

text \<open>Well-formed stores: every reference (to an \<open>Event\<close>, an array, an \<open>Execution\<close>, a
  timer) points into its heap, and no array lists an \<open>Execution\<close> twice.\<close>

definition wf :: "world \<Rightarrow> bool" where
  "wf w \<longleftrightarrow>
     (\<forall>e\<in>set (events w). e < length (eventHeap w)) \<and>
     (\<forall>e<length (eventHeap w). executions (eventHeap w ! e) < length (arrayHeap w)) \<and>
     (\<forall>a<length (arrayHeap w). \<forall>x\<in>set (arrayHeap w ! a). x < length (executionHeap w)) \<and>
     (\<forall>a<length (arrayHeap w). distinct (arrayHeap w ! a)) \<and>
     (\<forall>x<length (executionHeap w). eventInstance (executionHeap w ! x) < length (eventHeap w)) \<and>
     (\<forall>x<length (executionHeap w).
        timer_ref_ok (expirationTimeout (state (executionHeap w ! x))) (length (timers w))) \<and>
     (\<forall>t<length (timers w). owner (timers w ! t) < length (executionHeap w)) \<and>
     (\<forall>p\<in>set (suspended w). fst p < length (executionHeap w))"

text \<open>The guard of \<open>execute\<close>: the call returns at once.\<close>

definition dropped :: "nat \<Rightarrow> world \<Rightarrow> bool" where
  "dropped x w \<longleftrightarrow>
     isExecuting (state (executionHeap w ! x)) \<and>
     onlyOneExecutionAtATime (parameters (executionHeap w ! x))"

text \<open>The part of \<open>execute\<close> before the callback is called.\<close>

definition exec_begin :: "nat \<Rightarrow> args \<Rightarrow> world \<Rightarrow> world" where
  "exec_begin x as w =
     w\<lparr>timers := stop_timer (expirationTimeout (state (executionHeap w ! x))) (timers w),
       executionHeap := (executionHeap w)[x := (executionHeap w ! x)
          \<lparr>state := (state (executionHeap w ! x))\<lparr>isExecuting := True\<rparr>\<rparr>],
       trace := trace w @ [Invoked x as]\<rparr>"

text \<open>\<open>execute\<close> reaches its \<open>await\<close> with a promise that has not settled.\<close>

definition suspend :: "nat \<Rightarrow> outcome \<Rightarrow> world \<Rightarrow> world" where
  "suspend x out w = w\<lparr>suspended := suspended w @ [(x, out)]\<rparr>"

text \<open>The host starts the closure of timer \<open>t\<close>.\<close>

definition fire_begin :: "nat \<Rightarrow> world \<Rightarrow> world" where
  "fire_begin t w =
     w\<lparr>timers := (timers w)[t := (timers w ! t)\<lparr>pending := False\<rparr>],
       trace := trace w @ [Expired (owner (timers w ! t))
          (attached (owner (timers w ! t)) w)]\<rparr>"

text \<open>A suspended call of \<open>execute\<close> leaves the list when it is resumed.\<close>

definition drop_frame :: "nat \<Rightarrow> world \<Rightarrow> world" where
  "drop_frame i w = w\<lparr>suspended := take i (suspended w) @ drop (Suc i) (suspended w)\<rparr>"

text \<open>No heap shrinks.\<close>

definition grows :: "world \<Rightarrow> world \<Rightarrow> bool" where
  "grows w w' \<longleftrightarrow>
     length (executionHeap w) \<le> length (executionHeap w') \<and>
     length (arrayHeap w) \<le> length (arrayHeap w') \<and>
     length (eventHeap w) \<le> length (eventHeap w') \<and>
     length (timers w) \<le> length (timers w')"

text \<open>An invariant kept by every primitive step that calls of the emitter's methods and of
  \<open>execute\<close> are made of.\<close>

definition stable_sync :: "(world \<Rightarrow> bool) \<Rightarrow> bool" where
  "stable_sync I \<longleftrightarrow>
     (\<forall>w. I w \<longrightarrow> wf w) \<and>
     (\<forall>w x. I w \<longrightarrow> x < length (executionHeap w) \<longrightarrow> I (stopAutomaticCancellation x w)) \<and>
     (\<forall>w x as. I w \<longrightarrow> x < length (executionHeap w) \<longrightarrow> \<not> dropped x w \<longrightarrow> I (exec_begin x as w)) \<and>
     (\<forall>w x. I w \<longrightarrow> x < length (executionHeap w) \<longrightarrow> I (Execution_afterCallback x w)) \<and>
     (\<forall>w x out. I w \<longrightarrow> x < length (executionHeap w) \<longrightarrow> I (suspend x out w)) \<and>
     (\<forall>w name cb p. I w \<longrightarrow> I (snd (EventEmitter_addEvent name cb p w))) \<and>
     (\<forall>w name. I w \<longrightarrow> I (EventEmitter_removeEvent name w)) \<and>
     (\<forall>w name i. I w \<longrightarrow> I (EventEmitter_removeExecution name i w)) \<and>
     (\<forall>w. I w \<longrightarrow> I (EventEmitter_removeAllEvents w))"

text \<open>An invariant kept by the four methods of the emitter that change the registry.\<close>

definition stable_api :: "(world \<Rightarrow> bool) \<Rightarrow> bool" where
  "stable_api I \<longleftrightarrow>
     (\<forall>w. I w \<longrightarrow> wf w) \<and>
     (\<forall>w name cb p. I w \<longrightarrow> I (snd (EventEmitter_addEvent name cb p w))) \<and>
     (\<forall>w name. I w \<longrightarrow> I (EventEmitter_removeEvent name w)) \<and>
     (\<forall>w name i. I w \<longrightarrow> I (EventEmitter_removeExecution name i w)) \<and>
     (\<forall>w. I w \<longrightarrow> I (EventEmitter_removeAllEvents w))"

text \<open>An invariant kept also by the steps of the host: a timer firing, \<open>cancel\<close>, the
  resumption of a suspended call.\<close>

definition stable :: "(world \<Rightarrow> bool) \<Rightarrow> bool" where
  "stable I \<longleftrightarrow>
     stable_sync I \<and>
     (\<forall>w t. I w \<longrightarrow> t < length (timers w) \<longrightarrow> pending (timers w ! t) \<longrightarrow> I (fire_begin t w)) \<and>
     (\<forall>w x. I w \<longrightarrow> x < length (executionHeap w) \<longrightarrow> I (Execution_cancel x w)) \<and>
     (\<forall>w i. I w \<longrightarrow> i < length (suspended w) \<longrightarrow> I (drop_frame i w))"

text \<open>The first half of \<open>addEvent\<close>: look the name up, create the \<open>Event\<close> if it is new.\<close>

definition register_event :: "string \<Rightarrow> world \<Rightarrow> nat \<times> world" where
  "register_event name w =
     (case find_event name w of
        Some e \<Rightarrow> (e, w)
      | None \<Rightarrow>
          (length (eventHeap w),
           w\<lparr>arrayHeap := arrayHeap w @ [[]],
             eventHeap := eventHeap w @
               [\<lparr>eventName = name, eventId = eventIds w, executions = length (arrayHeap w),
                 executionCounter = 0\<rparr>],
             eventIds := eventIds w + 2,
             events := events w @ [length (eventHeap w)]\<rparr>))"

text \<open>What never changes in an \<open>Execution\<close>, and the flag \<open>hasExecuted\<close> that is never reset.\<close>

definition exec_same :: "Execution \<Rightarrow> Execution \<Rightarrow> bool" where
  "exec_same X Y \<longleftrightarrow>
     eventInstance Y = eventInstance X \<and> executionId Y = executionId X \<and>
     parameters Y = parameters X \<and> callbackFunction Y = callbackFunction X \<and>
     expirationTimeout (state Y) = expirationTimeout (state X) \<and>
     (hasExecuted (state X) \<longrightarrow> hasExecuted (state Y))"

text \<open>What never changes in an \<open>Event\<close>; its counter never decreases.\<close>

definition event_same :: "Event \<Rightarrow> Event \<Rightarrow> bool" where
  "event_same E F \<longleftrightarrow>
     eventName F = eventName E \<and> eventId F = eventId E \<and> executionCounter E \<le> executionCounter F"

text \<open>A timer keeps its owner and delay, and is never armed again.\<close>

definition timer_same :: "Timer \<Rightarrow> Timer \<Rightarrow> bool" where
  "timer_same T U \<longleftrightarrow> owner U = owner T \<and> delay U = delay T \<and> (pending U \<longrightarrow> pending T)"

text \<open>\<open>ext w w'\<close>: the store \<open>w'\<close> extends \<open>w\<close>. Used to relate the state before a callback
  runs to the state it returns to. (Arrays are replaced by \<open>filter\<close>, never shortened in
  place, so an array of \<open>w\<close> is a prefix of the same array in \<open>w'\<close>.)\<close>

definition ext :: "world \<Rightarrow> world \<Rightarrow> bool" where
  "ext w w' \<longleftrightarrow>
     length (executionHeap w) \<le> length (executionHeap w') \<and>
     (\<forall>x<length (executionHeap w). exec_same (executionHeap w ! x) (executionHeap w' ! x)) \<and>
     length (eventHeap w) \<le> length (eventHeap w') \<and>
     (\<forall>e<length (eventHeap w). event_same (eventHeap w ! e) (eventHeap w' ! e)) \<and>
     length (arrayHeap w) \<le> length (arrayHeap w') \<and>
     (\<forall>a<length (arrayHeap w). prefix (arrayHeap w ! a) (arrayHeap w' ! a)) \<and>
     length (timers w) \<le> length (timers w') \<and>
     (\<forall>t<length (timers w). timer_same (timers w ! t) (timers w' ! t)) \<and>
     prefix (trace w) (trace w') \<and> eventIds w \<le> eventIds w' \<and> nameId w' = nameId w"

text \<open>The state as a program can observe it: the arrays through the \<open>Event\<close> that holds them.\<close>

definition observable ::
  "world \<Rightarrow> string \<times> nat list \<times> int \<times> (string \<times> int \<times> int \<times> nat list) list \<times>
     Execution list \<times> Timer list \<times> (nat \<times> outcome) list \<times> obs list" where
  "observable w =
     (nameId w, events w, eventIds w,
      map (\<lambda>E. (eventName E, eventId E, executionCounter E, arrayHeap w ! executions E)) (eventHeap w),
      executionHeap w, timers w, suspended w, trace w)"

text \<open>The expirations of \<open>Execution\<close> \<open>x\<close> recorded in a trace.\<close>

definition expirations :: "nat \<Rightarrow> obs list \<Rightarrow> obs list" where
  "expirations x tr = filter (\<lambda>ob. case ob of Expired y b \<Rightarrow> y = x | Invoked y as \<Rightarrow> False) tr"

text \<open>No timer owned by \<open>x\<close> is pending.\<close>

definition disarmed :: "nat \<Rightarrow> world \<Rightarrow> bool" where
  "disarmed x w \<longleftrightarrow> (\<forall>t<length (timers w). owner (timers w ! t) = x \<longrightarrow> \<not> pending (timers w ! t))"

text \<open>The invariant of the timers: a pending timer is the one its owner holds, a running
  \<open>Execution\<close> has none, a pending timer has never fired. It holds in every state the
  emitter can reach (\<open>timers_ok_run\<close>).\<close>

definition timers_ok :: "world \<Rightarrow> bool" where
  "timers_ok w \<longleftrightarrow>
     wf w \<and>
     (\<forall>t<length (timers w). pending (timers w ! t) \<longrightarrow>
        expirationTimeout (state (executionHeap w ! owner (timers w ! t))) = int t) \<and>
     (\<forall>x<length (executionHeap w). isExecuting (state (executionHeap w ! x)) \<longrightarrow> disarmed x w) \<and>
     (\<forall>x<length (executionHeap w). expirationTimeout (state (executionHeap w ! x)) \<noteq> - 1 \<longrightarrow>
        owner (timers w ! nat (expirationTimeout (state (executionHeap w ! x)))) = x) \<and>
     (\<forall>t<length (timers w). pending (timers w ! t) \<longrightarrow> expirations (owner (timers w ! t)) (trace w) = []) \<and>
     (\<forall>y b. Expired y b \<in> set (trace w) \<longrightarrow> y < length (executionHeap w))"

text \<open>\<open>x\<close> has no pending timer and its recorded expirations are \<open>tr\<close>.\<close>

definition quiet :: "nat \<Rightarrow> obs list \<Rightarrow> world \<Rightarrow> bool" where
  "quiet x tr w \<longleftrightarrow>
     timers_ok w \<and> x < length (executionHeap w) \<and> disarmed x w \<and> expirations x (trace w) = tr"

text \<open>A subscription that expires after 50 ms, never triggered.\<close>

definition expiring_only :: world where
  "expiring_only = run demo 1 [Call (AddEvent ''a'' (UserFn 0) (Some expiring))] (EventEmitter_new ''r'')"

text \<open>A subscription whose \<open>onExpire\<close> callback throws.\<close>

definition expiring_throwing :: world where
  "expiring_throwing =
     run demo 1 [Call (AddEvent ''a'' (UserFn 0)
        (Some \<lparr>opt_removeAfterExecute = None,
               opt_expireAfterMs = Some \<lparr>exp_expireAfterMs = 50, exp_callback = UserFn 1\<rparr>,
               opt_onlyOneInstance = None\<rparr>))] (EventEmitter_new ''r'')"

text \<open>A subscription with \<open>onlyOneInstance\<close> whose callback was started by one emission and
  has not completed.\<close>

definition busy_subscriber :: world where
  "busy_subscriber =
     run demo 1 [Call (AddEvent ''a'' (UserFn 0)
        (Some \<lparr>opt_removeAfterExecute = None, opt_expireAfterMs = None,
               opt_onlyOneInstance = Some True\<rparr>)), Call (EmitEvent ''a'' [VNum 1])]
       (EventEmitter_new ''r'')"

text \<open>The invariant of the registry: two \<open>Event\<close>s never share an array, every listed
  \<open>Execution\<close> points back to the \<open>Event\<close> that lists it, its id is below the counter of
  that \<open>Event\<close>, and each array is in increasing order of id. It holds in every state the
  emitter can reach (\<open>links_run\<close>).\<close>

definition links :: "world \<Rightarrow> bool" where
  "links w \<longleftrightarrow>
     wf w \<and>
     (\<forall>e<length (eventHeap w). \<forall>e'<length (eventHeap w).
        executions (eventHeap w ! e) = executions (eventHeap w ! e') \<longrightarrow> e = e') \<and>
     (\<forall>e<length (eventHeap w). \<forall>x\<in>set (arrayHeap w ! executions (eventHeap w ! e)).
        eventInstance (executionHeap w ! x) = e \<and>
        executionId (executionHeap w ! x) < executionCounter (eventHeap w ! e)) \<and>
     (\<forall>e<length (eventHeap w).
        sorted_wrt (\<lambda>x y. executionId (executionHeap w ! x) < executionId (executionHeap w ! y))
          (arrayHeap w ! executions (eventHeap w ! e)))"

text \<open>The same notions for an invariant that is only kept while the \<open>Execution\<close>s started
  satisfy \<open>T\<close>.\<close>

definition stable_sync_on :: "(nat \<Rightarrow> bool) \<Rightarrow> (world \<Rightarrow> bool) \<Rightarrow> bool" where
  "stable_sync_on T I \<longleftrightarrow>
     (\<forall>w. I w \<longrightarrow> wf w) \<and>
     (\<forall>w e. I w \<longrightarrow> e < length (eventHeap w) \<longrightarrow>
        (\<forall>y\<in>set (arrayHeap w ! executions (eventHeap w ! e)). T y)) \<and>
     (\<forall>w x. I w \<longrightarrow> x < length (executionHeap w) \<longrightarrow> I (stopAutomaticCancellation x w)) \<and>
     (\<forall>w x as. I w \<longrightarrow> x < length (executionHeap w) \<longrightarrow> T x \<longrightarrow> \<not> dropped x w \<longrightarrow>
        I (exec_begin x as w)) \<and>
     (\<forall>w x. I w \<longrightarrow> x < length (executionHeap w) \<longrightarrow> I (Execution_afterCallback x w)) \<and>
     (\<forall>w x out. I w \<longrightarrow> x < length (executionHeap w) \<longrightarrow> I (suspend x out w)) \<and>
     (\<forall>w name cb p. I w \<longrightarrow> I (snd (EventEmitter_addEvent name cb p w))) \<and>
     (\<forall>w name. I w \<longrightarrow> I (EventEmitter_removeEvent name w)) \<and>
     (\<forall>w name i. I w \<longrightarrow> I (EventEmitter_removeExecution name i w)) \<and>
     (\<forall>w. I w \<longrightarrow> I (EventEmitter_removeAllEvents w))"

definition stable_on :: "(nat \<Rightarrow> bool) \<Rightarrow> (world \<Rightarrow> bool) \<Rightarrow> bool" where
  "stable_on T I \<longleftrightarrow>
     stable_sync_on T I \<and>
     (\<forall>w t. I w \<longrightarrow> t < length (timers w) \<longrightarrow> pending (timers w ! t) \<longrightarrow> I (fire_begin t w)) \<and>
     (\<forall>w x. I w \<longrightarrow> x < length (executionHeap w) \<longrightarrow> I (Execution_cancel x w)) \<and>
     (\<forall>w i. I w \<longrightarrow> i < length (suspended w) \<longrightarrow> I (drop_frame i w))"

text \<open>The calls of the callback of \<open>x\<close> recorded in a trace.\<close>

definition invocations :: "nat \<Rightarrow> obs list \<Rightarrow> obs list" where
  "invocations x tr = filter (\<lambda>ob. case ob of Invoked y as \<Rightarrow> y = x | Expired y b \<Rightarrow> False) tr"

text \<open>No \<open>Event\<close> lists \<open>x\<close>.\<close>

definition unlisted :: "nat \<Rightarrow> world \<Rightarrow> bool" where
  "unlisted x w \<longleftrightarrow>
     (\<forall>e<length (eventHeap w). x \<notin> set (arrayHeap w ! executions (eventHeap w ! e)))"

text \<open>\<open>x\<close> is listed nowhere and its recorded calls are \<open>tr\<close>.\<close>

definition gone :: "nat \<Rightarrow> obs list \<Rightarrow> world \<Rightarrow> bool" where
  "gone x tr w \<longleftrightarrow>
     wf w \<and> x < length (executionHeap w) \<and> unlisted x w \<and> invocations x (trace w) = tr"

text \<open>A one-shot subscription whose callback was started by one emission and has not completed.\<close>

definition one_shot_running :: world where
  "one_shot_running =
     run demo 1 [Call (AddEvent ''a'' (UserFn 0) (Some once)), Call (EmitEvent ''a'' [VNum 1])]
       (EventEmitter_new ''r'')"

text \<open>The number of suspended calls of \<open>execute\<close> on \<open>x\<close>.\<close>

definition frames_of :: "nat \<Rightarrow> world \<Rightarrow> nat" where
  "frames_of x w = length (filter (\<lambda>p. fst p = x) (suspended w))"

definition only_one :: "world \<Rightarrow> nat \<Rightarrow> bool" where
  "only_one w x \<longleftrightarrow> onlyOneExecutionAtATime (parameters (executionHeap w ! x))"

definition busy :: "world \<Rightarrow> nat \<Rightarrow> bool" where
  "busy w x \<longleftrightarrow> isExecuting (state (executionHeap w ! x))"

text \<open>The invariant of the flag \<open>isExecuting\<close> for an \<open>Execution\<close> with
  \<open>onlyOneExecutionAtATime\<close>: at most one call of \<open>execute\<close> is suspended, and the flag is
  set while one is. \<open>S\<close> holds the \<open>Execution\<close>s whose callback is on the call stack. With
  \<open>S = {}\<close> it holds in every state the emitter can reach (\<open>running_run\<close>).\<close>

definition running :: "nat set \<Rightarrow> world \<Rightarrow> bool" where
  "running S w \<longleftrightarrow>
     wf w \<and> (\<forall>x\<in>S. x < length (executionHeap w)) \<and>
     (\<forall>x<length (executionHeap w). only_one w x \<longrightarrow>
        frames_of x w \<le> 1 \<and> (0 < frames_of x w \<longrightarrow> busy w x) \<and>
        (x \<in> S \<longrightarrow> busy w x \<and> frames_of x w = 0))"

text \<open>Three subscriptions to \<open>a\<close>: a one-shot whose callback throws, one whose callback
  returns a promise that rejects, and a plain one.\<close>

definition failing_subscribers :: world where
  "failing_subscribers =
     run demo 1 [Call (AddEvent ''a'' (UserFn 1) (Some once)), Call (AddEvent ''a'' (UserFn 2) None),
                 Call (AddEvent ''a'' (UserFn 0) None)] (EventEmitter_new ''r'')"

text \<open>The callback \<open>UserFn 4\<close> emits \<open>a\<close> with the argument 2 when it is called with the
  argument 1 and does nothing otherwise; \<open>UserFn 1\<close> throws.\<close>

definition reentrant :: program where
  "reentrant k as =
     (if k = 4 \<and> as = [VNum 1] then \<lparr>actions = [EmitEvent ''a'' [VNum 2]], outcome = Resolves\<rparr>
      else if k = 1 then \<lparr>actions = [], outcome = Throws\<rparr>
      else \<lparr>actions = [], outcome = Resolves\<rparr>)"

text \<open>A plain subscription to \<open>a\<close> with the callback \<open>UserFn 4\<close>, followed by a one-shot
  subscription whose callback throws.\<close>

definition one_shot_behind_emitter :: world where
  "one_shot_behind_emitter =
     run reentrant 2 [Call (AddEvent ''a'' (UserFn 4) None), Call (AddEvent ''a'' (UserFn 1) (Some once))]
       (EventEmitter_new ''r'')"

lemma Execution_new_eq:
  "Execution_new e i cb params w =
     (length (executionHeap w),
      w\<lparr>executionHeap := executionHeap w @ [new_Execution e i cb params (length (timers w))],
        timers := timers w @ new_timers (length (executionHeap w)) params\<rparr>)"
  by (cases params)
     (auto simp: Execution_new_def Let_def set_onlyOneInstance_def set_expireAfterMs_def
        set_removeAfterExecute_def activateAutomaticCancellation_def setTimeout_def upd_exec_def
        new_Execution_def new_parameters_def new_timers_def default_Execution_def
        split: option.splits)

lemma Event_addExecution_eq:
  "Event_addExecution e cb params w =
     (executionCounter (eventHeap w ! e),
      w\<lparr>executionHeap := executionHeap w @
           [new_Execution e (executionCounter (eventHeap w ! e)) cb params (length (timers w))],
        timers := timers w @ new_timers (length (executionHeap w)) params,
        arrayHeap := (arrayHeap w)[executions (eventHeap w ! e) :=
           arrayHeap w ! executions (eventHeap w ! e) @ [length (executionHeap w)]],
        eventHeap := (eventHeap w)[e := (eventHeap w ! e)
           \<lparr>executionCounter := executionCounter (eventHeap w ! e) + 1\<rparr>]\<rparr>)"
  by (simp add: Event_addExecution_def Execution_new_eq upd_event_def new_Execution_def Let_def)

lemma stopAutomaticCancellation_eq:
  "stopAutomaticCancellation x w =
     w\<lparr>timers := stop_timer (expirationTimeout (state (executionHeap w ! x))) (timers w)\<rparr>"
  by (simp add: stopAutomaticCancellation_def clearTimeout_def stop_timer_def Let_def)

lemma Event_removeExecution_eq:
  "Event_removeExecution e i w =
     w\<lparr>arrayHeap := arrayHeap w @
          [filter (\<lambda>x. executionId (executionHeap w ! x) \<noteq> i) (arrayHeap w ! executions (eventHeap w ! e))],
       eventHeap := (eventHeap w)[e := (eventHeap w ! e)\<lparr>executions := length (arrayHeap w)\<rparr>]\<rparr>"
  by (simp add: Event_removeExecution_def upd_event_def Let_def)

lemma Execution_cancel_eq:
  "Execution_cancel x w =
     w\<lparr>timers := stop_timer (expirationTimeout (state (executionHeap w ! x))) (timers w),
       arrayHeap := arrayHeap w @
          [filter (\<lambda>y. executionId (executionHeap w ! y) \<noteq> executionId (executionHeap w ! x))
             (arrayHeap w ! executions (eventHeap w ! eventInstance (executionHeap w ! x)))],
       eventHeap := (eventHeap w)[eventInstance (executionHeap w ! x) :=
          (eventHeap w ! eventInstance (executionHeap w ! x))\<lparr>executions := length (arrayHeap w)\<rparr>]\<rparr>"
  by (simp add: Execution_cancel_def Let_def stopAutomaticCancellation_eq Event_removeExecution_eq)

lemma length_stop_timer [simp]: "length (stop_timer t ts) = length ts"
  by (simp add: stop_timer_def)

lemma nth_upd: "xs[i := v] ! j = (if i = j \<and> i < length xs then v else xs ! j)"
  by (cases "i < length xs") (auto simp: nth_list_update list_update_beyond)

lemma owner_stop_timer [simp]: "owner (stop_timer t ts ! i) = owner (ts ! i)"
  by (simp add: stop_timer_def nth_upd)

lemma delay_stop_timer [simp]: "delay (stop_timer t ts ! i) = delay (ts ! i)"
  by (simp add: stop_timer_def nth_upd)

lemma pending_stop_timer: "i < length ts \<Longrightarrow> pending (stop_timer t ts ! i) \<Longrightarrow> pending (ts ! i)"
  by (simp add: stop_timer_def nth_list_update split: if_splits)

lemma length_new_timers: "length (new_timers x p) \<le> 1"
  by (simp add: new_timers_def split: option.splits)

lemma owner_new_timers: "T \<in> set (new_timers x p) \<Longrightarrow> owner T = x \<and> pending T"
  by (auto simp add: new_timers_def split: option.splits)

lemma new_timers_nth [simp]:
  "i < length (new_timers x p) \<Longrightarrow> owner (new_timers x p ! i) = x \<and> pending (new_timers x p ! i)"
  by (auto simp add: new_timers_def split: option.splits)

lemma wf_stop: "wf w \<Longrightarrow> wf (stopAutomaticCancellation x w)"
  by (simp add: wf_def stopAutomaticCancellation_eq)

lemma wf_cancel: "wf w \<Longrightarrow> x < length (executionHeap w) \<Longrightarrow> wf (Execution_cancel x w)"
  unfolding wf_def Execution_cancel_eq
  by (auto simp: nth_append nth_list_update less_Suc_eq)

lemma wf_Event_removeExecution: "wf w \<Longrightarrow> e < length (eventHeap w) \<Longrightarrow> wf (Event_removeExecution e i w)"
  unfolding wf_def Event_removeExecution_eq
  by (auto simp: nth_append nth_list_update less_Suc_eq)

lemma timer_ref_ok_new:
  "timer_ref_ok (expirationTimeout (state (new_Execution e i cb p t))) (t + length (new_timers x p))"
  by (auto simp: timer_ref_ok_def new_Execution_def new_timers_def split: option.splits)

lemma timer_ref_ok_mono: "timer_ref_ok t n \<Longrightarrow> n \<le> m \<Longrightarrow> timer_ref_ok t m"
  by (auto simp: timer_ref_ok_def)

lemma eventInstance_new [simp]: "eventInstance (new_Execution e i cb p t) = e"
  by (simp add: new_Execution_def)

lemma wf_Event_addExecution:
  "wf w \<Longrightarrow> e < length (eventHeap w) \<Longrightarrow> wf (snd (Event_addExecution e cb p w))"
  unfolding wf_def Event_addExecution_eq
  apply (simp add: nth_append nth_list_update less_Suc_eq)
  apply (intro conjI allI impI ballI)
  apply (auto simp: timer_ref_ok_new intro: timer_ref_ok_mono)
  done

lemma Execution_execute_alt:
  "Execution_execute call x as w =
     (if dropped x w then (stopAutomaticCancellation x w, Normal)
      else (case call (callbackFunction (executionHeap w ! x)) as (exec_begin x as w) of
              (w3, Throws) \<Rightarrow> (Execution_afterCallback x w3, Normal)
            | (w3, out) \<Rightarrow> (suspend x out w3, Normal)))"
  by (auto simp: Execution_execute_def Let_def stopAutomaticCancellation_eq dropped_def
        exec_begin_def upd_exec_def suspend_def split: prod.splits outcome.splits)

lemma timeout_closure_alt:
  "t < length (timers w) \<Longrightarrow>
   timeout_closure call (owner (timers w ! t))
      (w\<lparr>timers := (timers w)[t := (timers w ! t)\<lparr>pending := False\<rparr>]\<rparr>) =
     (case call (callback (expirationCallback (parameters (executionHeap w ! owner (timers w ! t))))) []
             (fire_begin t w) of
        (w1, Throws) \<Rightarrow> (w1, Thrown)
      | (w1, _) \<Rightarrow> (Execution_cancel (owner (timers w ! t)) w1, Normal))"
  by (simp add: timeout_closure_def fire_begin_def attached_def)

section \<open>grows\<close>

lemma grows_refl [simp]: "grows w w"
  by (simp add: grows_def)

lemma grows_trans: "grows w w1 \<Longrightarrow> grows w1 w2 \<Longrightarrow> grows w w2"
  by (auto simp: grows_def)

lemma grows_stop [simp]: "grows w (stopAutomaticCancellation x w)"
  by (simp add: grows_def stopAutomaticCancellation_eq)

lemma grows_exec_begin [simp]: "grows w (exec_begin x as w)"
  by (simp add: grows_def exec_begin_def)

lemma grows_cancel [simp]: "grows w (Execution_cancel x w)"
  by (simp add: grows_def Execution_cancel_eq)

lemma grows_afterCallback [simp]: "grows w (Execution_afterCallback x w)"
  by (simp add: grows_def Execution_afterCallback_def Let_def Execution_cancel_eq upd_exec_def)

lemma grows_suspend [simp]: "grows w (suspend x out w)"
  by (simp add: grows_def suspend_def)

lemma grows_Event_new [simp]: "grows w (snd (Event_new name i w))"
  by (simp add: grows_def Event_new_def)

lemma grows_addEvent [simp]: "grows w (snd (EventEmitter_addEvent name cb p w))"
  by (simp add: grows_def EventEmitter_addEvent_def Event_addExecution_eq Event_new_def Let_def
        split: option.splits prod.splits)

lemma grows_removeEvent [simp]: "grows w (EventEmitter_removeEvent name w)"
  by (simp add: grows_def EventEmitter_removeEvent_def)

lemma grows_removeExecution [simp]: "grows w (EventEmitter_removeExecution name i w)"
  by (simp add: grows_def EventEmitter_removeExecution_def Event_removeExecution_eq Let_def
        split: option.splits)

lemma grows_removeAllEvents [simp]: "grows w (EventEmitter_removeAllEvents w)"
  by (simp add: grows_def EventEmitter_removeAllEvents_def)

lemma grows_fire_begin [simp]: "grows w (fire_begin t w)"
  by (simp add: grows_def fire_begin_def)

lemma grows_drop_frame [simp]: "grows w (drop_frame i w)"
  by (simp add: grows_def drop_frame_def)

lemma grows_Execution_execute:
  assumes "\<And>g as w. grows w (fst (call g as w))"
  shows "grows w (fst (Execution_execute call x as w))"
proof (cases "dropped x w")
  case True
  then show ?thesis by (simp add: Execution_execute_alt)
next
  case False
  obtain w3 out where c: "call (callbackFunction (executionHeap w ! x)) as (exec_begin x as w) = (w3, out)"
    by (cases "call (callbackFunction (executionHeap w ! x)) as (exec_begin x as w)")
  have "grows (exec_begin x as w) w3"
    using assms [of "exec_begin x as w" "callbackFunction (executionHeap w ! x)" as] c by simp
  then have g: "grows w w3"
    using grows_exec_begin grows_trans by blast
  show ?thesis
    using False c g
    by (cases out) (auto simp: Execution_execute_alt intro: grows_trans [OF g])
qed

lemma grows_forEach_from:
  assumes "\<And>x as w. grows w (fst (f x as w))"
  shows "grows w (fst (forEach_from f a as k n w))"
proof (induction n arbitrary: k w)
  case 0
  then show ?case by simp
next
  case (Suc n)
  show ?case
  proof (cases "k < length (arrayHeap w ! a)")
    case False
    then show ?thesis using Suc.IH by simp
  next
    case True
    obtain w1 c where fx: "f (arrayHeap w ! a ! k) as w = (w1, c)"
      by (cases "f (arrayHeap w ! a ! k) as w")
    have g1: "grows w w1"
      using assms [of w "arrayHeap w ! a ! k" as] fx by simp
    show ?thesis
    proof (cases c)
      case Thrown
      then show ?thesis using True fx g1 by simp
    next
      case Normal
      have "grows w1 (fst (forEach_from f a as (Suc k) n w1))"
        by (rule Suc.IH)
      then show ?thesis
        using True fx Normal g1 by (auto split: prod.splits intro: grows_trans)
    qed
  qed
qed

lemma grows_emitEvent:
  assumes "\<And>x as w. grows w (fst (f x as w))"
  shows "grows w (fst (EventEmitter_emitEvent f name as w))"
  using grows_forEach_from [of f, OF assms]
  by (auto simp: EventEmitter_emitEvent_def Event_execute_def Event_fanout_def Array_forEach_def
        split: option.splits prod.splits) (metis fst_conv)

lemma grows_do_action:
  assumes "\<And>x as w. grows w (fst (f x as w))"
  shows "grows w (fst (do_action f a w))"
  using grows_emitEvent [of f, OF assms] by (cases a) simp_all

lemma grows_run_actions:
  assumes "\<And>x as w. grows w (fst (f x as w))"
  shows "grows w (fst (run_actions f acts w))"
proof (induction acts arbitrary: w)
  case Nil
  then show ?case by simp
next
  case (Cons a acts)
  obtain w1 c where d: "do_action f a w = (w1, c)" by (cases "do_action f a w")
  have "grows w w1" using grows_do_action [of f w a, OF assms] d by simp
  then show ?case
    using d Cons.IH [of w1] by (cases c) (auto intro: grows_trans)
qed

lemma grows_invoke: "grows w (fst (invoke prog d g as w))"
proof (induction d arbitrary: g as w)
  case 0
  then show ?case by simp
next
  case (Suc d)
  have "\<And>x as w. grows w (fst (Execution_execute (invoke prog d) x as w))"
    by (rule grows_Execution_execute) (rule Suc.IH)
  from grows_run_actions [of "Execution_execute (invoke prog d)", OF this]
  show ?case
    by (auto split: prod.splits completion.splits) (metis fst_conv)+
qed

lemma grows_trigger: "grows w (fst (trigger prog d x as w))"
  unfolding trigger_def by (rule grows_Execution_execute) (rule grows_invoke)

section \<open>The pipeline for a stable invariant\<close>

lemma stable_wf_of: "stable_sync I \<Longrightarrow> I w \<Longrightarrow> wf w"
  by (simp add: stable_sync_def)

lemma api_wf_of: "stable_api I \<Longrightarrow> I w \<Longrightarrow> wf w"
  by (simp add: stable_api_def)

lemma stable_api_of: "stable_sync I \<Longrightarrow> stable_api I"
  by (simp add: stable_sync_def stable_api_def)

lemma sync_Execution_execute:
  assumes st: "stable_sync I"
    and call_ok: "\<And>g as w. I w \<Longrightarrow> I (fst (call g as w))"
    and call_grows: "\<And>g as w. grows w (fst (call g as w))"
    and I: "I w" and x: "x < length (executionHeap w)"
  shows "I (fst (Execution_execute call x as w))"
proof (cases "dropped x w")
  case True
  then show ?thesis using st I x by (simp add: Execution_execute_alt stable_sync_def)
next
  case False
  obtain w3 out where c: "call (callbackFunction (executionHeap w ! x)) as (exec_begin x as w) = (w3, out)"
    by (cases "call (callbackFunction (executionHeap w ! x)) as (exec_begin x as w)")
  have b: "I (exec_begin x as w)"
    using st I x False by (simp add: stable_sync_def)
  have I3: "I w3"
    using call_ok [OF b, of "callbackFunction (executionHeap w ! x)" as] c by simp
  have "grows (exec_begin x as w) w3"
    using call_grows [of "exec_begin x as w" "callbackFunction (executionHeap w ! x)" as] c by simp
  then have "grows w w3"
    using grows_exec_begin grows_trans by blast
  then have x3: "x < length (executionHeap w3)"
    using x by (simp add: grows_def)
  have "I (Execution_afterCallback x w3)" "I (suspend x out w3)"
    using st I3 x3 by (simp_all add: stable_sync_def)
  then show ?thesis
    using False c by (cases out) (simp_all add: Execution_execute_alt)
qed

lemma sync_forEach_from:
  assumes st: "stable_api I"
    and f_ok: "\<And>x as w. I w \<Longrightarrow> x < length (executionHeap w) \<Longrightarrow> I (fst (f x as w))"
    and f_grows: "\<And>x as w. grows w (fst (f x as w))"
  shows "I w \<Longrightarrow> a < length (arrayHeap w) \<Longrightarrow> I (fst (forEach_from f a as k n w))"
proof (induction n arbitrary: k w)
  case 0
  then show ?case by simp
next
  case (Suc n)
  show ?case
  proof (cases "k < length (arrayHeap w ! a)")
    case False
    then show ?thesis using Suc by simp
  next
    case True
    let ?x = "arrayHeap w ! a ! k"
    obtain w1 c where fx: "f ?x as w = (w1, c)"
      by (cases "f ?x as w")
    have "wf w" using st Suc.prems(1) by (rule api_wf_of)
    then have xv: "?x < length (executionHeap w)"
      using True Suc.prems(2) by (simp add: wf_def)
    have I1: "I w1"
      using f_ok [OF Suc.prems(1) xv, of as] fx by simp
    have "grows w w1"
      using f_grows [of w ?x as] fx by simp
    then have a1: "a < length (arrayHeap w1)"
      using Suc.prems(2) by (simp add: grows_def)
    show ?thesis
    proof (cases c)
      case Thrown
      then show ?thesis using True fx I1 by simp
    next
      case Normal
      have "I (fst (forEach_from f a as (Suc k) n w1))"
        using I1 a1 by (rule Suc.IH)
      then show ?thesis
        using True fx Normal by (auto split: prod.splits)
    qed
  qed
qed

lemma find_event_valid:
  "wf w \<Longrightarrow> find_event name w = Some e \<Longrightarrow>
   e \<in> set (events w) \<and> e < length (eventHeap w) \<and> eventName (eventHeap w ! e) = name \<and>
   executions (eventHeap w ! e) < length (arrayHeap w)"
  by (auto simp: find_event_def wf_def find_Some_iff)

lemma sync_emitEvent:
  assumes st: "stable_api I"
    and f_ok: "\<And>x as w. I w \<Longrightarrow> x < length (executionHeap w) \<Longrightarrow> I (fst (f x as w))"
    and f_grows: "\<And>x as w. grows w (fst (f x as w))"
    and I: "I w"
  shows "I (fst (EventEmitter_emitEvent f name as w))"
proof (cases "find_event name w")
  case None
  then show ?thesis using I by (simp add: EventEmitter_emitEvent_def)
next
  case (Some e)
  have "wf w" using st I by (rule api_wf_of)
  then have "executions (eventHeap w ! e) < length (arrayHeap w)"
    using Some find_event_valid by blast
  from sync_forEach_from [of I f, OF st f_ok f_grows I this]
  show ?thesis
    using Some
    by (auto simp: EventEmitter_emitEvent_def Event_execute_def Event_fanout_def Array_forEach_def
          split: prod.splits) (metis fst_conv)
qed

lemma sync_do_action:
  assumes st: "stable_api I"
    and f_ok: "\<And>x as w. I w \<Longrightarrow> x < length (executionHeap w) \<Longrightarrow> I (fst (f x as w))"
    and f_grows: "\<And>x as w. grows w (fst (f x as w))"
    and I: "I w"
  shows "I (fst (do_action f a w))"
proof (cases a)
  case (EmitEvent name as)
  then show ?thesis
    using sync_emitEvent [of I f, OF st f_ok f_grows I] by simp
qed (use st I in \<open>simp_all add: stable_api_def\<close>)

lemma sync_run_actions:
  assumes st: "stable_api I"
    and f_ok: "\<And>x as w. I w \<Longrightarrow> x < length (executionHeap w) \<Longrightarrow> I (fst (f x as w))"
    and f_grows: "\<And>x as w. grows w (fst (f x as w))"
  shows "I w \<Longrightarrow> I (fst (run_actions f acts w))"
proof (induction acts arbitrary: w)
  case Nil
  then show ?case by simp
next
  case (Cons a acts)
  obtain w1 c where d: "do_action f a w = (w1, c)" by (cases "do_action f a w")
  have "I w1"
    using sync_do_action [of I f, OF st f_ok f_grows Cons.prems, of a] d by simp
  then show ?case
    using d Cons.IH [of w1] by (cases c) auto
qed

lemma sync_invoke:
  assumes st: "stable_sync I"
  shows "I w \<Longrightarrow> I (fst (invoke prog d g as w))"
proof (induction d arbitrary: g as w)
  case 0
  then show ?case by simp
next
  case (Suc d)
  have ok: "\<And>x as w. I w \<Longrightarrow> x < length (executionHeap w) \<Longrightarrow>
              I (fst (Execution_execute (invoke prog d) x as w))"
    by (rule sync_Execution_execute [OF st Suc.IH grows_invoke])
  have gr: "\<And>x as w. grows w (fst (Execution_execute (invoke prog d) x as w))"
    by (rule grows_Execution_execute) (rule grows_invoke)
  from sync_run_actions [of I "Execution_execute (invoke prog d)", OF stable_api_of [OF st] ok gr Suc.prems]
  show ?case
    by (auto split: prod.splits completion.splits) (metis fst_conv)+
qed

lemma sync_trigger:
  assumes "stable_sync I" "I w" "x < length (executionHeap w)"
  shows "I (fst (trigger prog d x as w))"
  unfolding trigger_def
  by (rule sync_Execution_execute [OF assms(1) sync_invoke [OF assms(1)] grows_invoke assms(2,3)])

lemma stable_sync_of: "stable I \<Longrightarrow> stable_sync I"
  by (simp add: stable_def)

lemma stable_do_step:
  assumes st: "stable I" and I: "I w"
  shows "I (fst (do_step prog d s w))"
proof (cases s)
  note ss = stable_sync_of [OF st]
  case (Call a)
  show ?thesis
    unfolding Call do_step.simps
    by (rule sync_do_action [OF stable_api_of [OF ss] sync_trigger [OF ss] grows_trigger I])
next
  case (Fire t)
  show ?thesis
  proof (cases "t < length (timers w) \<and> pending (timers w ! t)")
    case False
    then show ?thesis using I Fire by auto
  next
    case True
    let ?x = "owner (timers w ! t)"
    let ?g = "callback (expirationCallback (parameters (executionHeap w ! ?x)))"
    obtain w1 out where c: "invoke prog d ?g [] (fire_begin t w) = (w1, out)"
      by (cases "invoke prog d ?g [] (fire_begin t w)")
    have "wf w" using stable_sync_of [OF st] I by (rule stable_wf_of)
    then have xv: "?x < length (executionHeap w)"
      using True by (simp add: wf_def)
    have b: "I (fire_begin t w)"
      using st I True by (simp add: stable_def)
    have I1: "I w1"
      using sync_invoke [OF stable_sync_of [OF st] b, of prog d ?g "[]"] c by simp
    have "grows (fire_begin t w) w1"
      using grows_invoke [of "fire_begin t w" prog d ?g "[]"] c by simp
    then have "grows w w1"
      using grows_fire_begin grows_trans by blast
    then have "?x < length (executionHeap w1)"
      using xv by (simp add: grows_def)
    then have "I (Execution_cancel ?x w1)"
      using st I1 by (simp add: stable_def)
    then show ?thesis
      using True Fire c I1 by (cases out) (simp_all add: timeout_closure_alt)
  qed
next
  case (Resume i)
  show ?thesis
  proof (cases "i < length (suspended w)")
    case False
    then show ?thesis using I Resume by simp
  next
    case True
    have "wf w" using stable_sync_of [OF st] I by (rule stable_wf_of)
    then have "fst (suspended w ! i) < length (executionHeap w)"
      using True by (simp add: wf_def)
    then have "fst (suspended w ! i) < length (executionHeap (drop_frame i w))"
      by (simp add: drop_frame_def)
    moreover have "I (drop_frame i w)"
      using st I True by (simp add: stable_def)
    ultimately have "I (Execution_afterCallback (fst (suspended w ! i)) (drop_frame i w))"
      using st by (simp add: stable_def stable_sync_def)
    then show ?thesis
      using True Resume by (simp add: drop_frame_def)
  qed
qed

lemma stable_run:
  assumes st: "stable I"
  shows "I w \<Longrightarrow> I (run prog d ss w)"
  unfolding run_def
  by (induction ss arbitrary: w) (simp_all add: stable_do_step [OF st])

lemma EventEmitter_addEvent_eq:
  "EventEmitter_addEvent name cb p w =
     (case register_event name w of
        (e, w1) \<Rightarrow>
          (\<lparr>remove = (name, executionCounter (eventHeap w1 ! e)),
            executionId_of = executionCounter (eventHeap w1 ! e),
            eventName_of = eventName (eventHeap w1 ! e)\<rparr>,
           snd (Event_addExecution e cb p w1)))"
  by (auto simp: EventEmitter_addEvent_def register_event_def Event_new_def Let_def
        Event_addExecution_eq nth_upd split: option.splits prod.splits)

lemma wf_register_event:
  "wf w \<Longrightarrow> wf (snd (register_event name w)) \<and>
     fst (register_event name w) < length (eventHeap (snd (register_event name w)))"
  unfolding register_event_def
  by (auto simp: wf_def nth_append less_Suc_eq find_event_def find_Some_iff split: option.splits)

lemma wf_exec_begin: "wf w \<Longrightarrow> wf (exec_begin x as w)"
  unfolding wf_def exec_begin_def
  by (auto simp: nth_upd)

lemma wf_flags:
  "wf w \<Longrightarrow> wf (upd_exec x (\<lambda>X. X\<lparr>state := (state X)\<lparr>isExecuting := False, hasExecuted := True\<rparr>\<rparr>) w)"
  unfolding wf_def upd_exec_def
  by (auto simp: nth_upd)

lemma wf_afterCallback: "wf w \<Longrightarrow> x < length (executionHeap w) \<Longrightarrow> wf (Execution_afterCallback x w)"
  unfolding Execution_afterCallback_def Let_def
  using wf_flags [of w x] wf_cancel [of "upd_exec x (\<lambda>X. X\<lparr>state := (state X)\<lparr>isExecuting := False, hasExecuted := True\<rparr>\<rparr>) w" x]
  by (auto simp: upd_exec_def)

lemma wf_suspend: "wf w \<Longrightarrow> x < length (executionHeap w) \<Longrightarrow> wf (suspend x out w)"
  unfolding wf_def suspend_def by auto

lemma wf_Event_new: "wf w \<Longrightarrow> wf (snd (Event_new name i w))"
  unfolding wf_def Event_new_def
  by (auto simp: nth_append less_Suc_eq)

lemma wf_eventIds: "wf (w\<lparr>eventIds := n\<rparr>) = wf w"
  by (simp add: wf_def)

lemma wf_events: "wf w \<Longrightarrow> \<forall>e\<in>set es. e < length (eventHeap w) \<Longrightarrow> wf (w\<lparr>events := es\<rparr>)"
  by (simp add: wf_def)

lemma wf_events_of: "wf w \<Longrightarrow> e \<in> set (events w) \<Longrightarrow> e < length (eventHeap w)"
  by (simp add: wf_def)

lemma wf_addEvent: "wf w \<Longrightarrow> wf (snd (EventEmitter_addEvent name cb p w))"
  using wf_register_event [of w name]
  by (auto simp: EventEmitter_addEvent_eq split: prod.splits intro: wf_Event_addExecution)

lemma wf_removeEvent: "wf w \<Longrightarrow> wf (EventEmitter_removeEvent name w)"
  unfolding EventEmitter_removeEvent_def by (auto intro!: wf_events dest: wf_events_of)

lemma wf_removeAllEvents: "wf w \<Longrightarrow> wf (EventEmitter_removeAllEvents w)"
  unfolding EventEmitter_removeAllEvents_def by (auto intro!: wf_events)

lemma wf_removeExecution: "wf w \<Longrightarrow> wf (EventEmitter_removeExecution name i w)"
proof (cases "find_event name w")
  case None
  then show "wf w \<Longrightarrow> ?thesis" by (simp add: EventEmitter_removeExecution_def)
next
  case (Some e)
  assume w: "wf w"
  then have "wf (Event_removeExecution e i w)"
    using Some find_event_valid wf_Event_removeExecution by blast
  then show ?thesis
    using Some
    by (auto simp: EventEmitter_removeExecution_def Let_def intro!: wf_events dest: wf_events_of)
qed

lemma wf_fire_begin: "wf w \<Longrightarrow> wf (fire_begin t w)"
  unfolding wf_def fire_begin_def
  by (auto simp: nth_upd)

lemma wf_drop_frame: "wf w \<Longrightarrow> wf (drop_frame i w)"
  unfolding wf_def drop_frame_def
  by (auto dest: in_set_takeD in_set_dropD)

lemma stable_wf: "stable wf"
  unfolding stable_def stable_sync_def
  by (intro conjI allI impI wf_stop wf_exec_begin wf_afterCallback wf_suspend wf_addEvent
        wf_removeEvent wf_removeExecution wf_removeAllEvents wf_fire_begin wf_cancel wf_drop_frame)

lemma wf_new: "wf (EventEmitter_new name)"
  by (simp add: wf_def EventEmitter_new_def)

lemma wf_run: "wf (run prog d ss (EventEmitter_new name))"
  by (rule stable_run [OF stable_wf wf_new])

lemma exec_same_refl [simp]: "exec_same X X"
  by (simp add: exec_same_def)

lemma event_same_refl [simp]: "event_same E E"
  by (simp add: event_same_def)

lemma timer_same_refl [simp]: "timer_same T T"
  by (simp add: timer_same_def)

lemma exec_same_trans: "exec_same X Y \<Longrightarrow> exec_same Y Z \<Longrightarrow> exec_same X Z"
  by (simp add: exec_same_def)

lemma event_same_trans: "event_same X Y \<Longrightarrow> event_same Y Z \<Longrightarrow> event_same X Z"
  by (simp add: event_same_def)

lemma timer_same_trans: "timer_same X Y \<Longrightarrow> timer_same Y Z \<Longrightarrow> timer_same X Z"
  by (simp add: timer_same_def)

lemma ext_refl [simp]: "ext w w"
  by (simp add: ext_def)

lemma ext_trans:
  assumes "ext w w1" "ext w1 w2"
  shows "ext w w2"
  unfolding ext_def
proof (intro conjI allI impI)
  fix x assume "x < length (executionHeap w)"
  then show "exec_same (executionHeap w ! x) (executionHeap w2 ! x)"
    using assms by (auto simp: ext_def intro: exec_same_trans)
next
  fix e assume "e < length (eventHeap w)"
  then show "event_same (eventHeap w ! e) (eventHeap w2 ! e)"
    using assms by (auto simp: ext_def intro: event_same_trans)
next
  fix a assume "a < length (arrayHeap w)"
  then have "prefix (arrayHeap w ! a) (arrayHeap w1 ! a)" "prefix (arrayHeap w1 ! a) (arrayHeap w2 ! a)"
    using assms by (auto simp: ext_def)
  then show "prefix (arrayHeap w ! a) (arrayHeap w2 ! a)"
    by (rule prefix_order.trans)
next
  fix t assume "t < length (timers w)"
  then show "timer_same (timers w ! t) (timers w2 ! t)"
    using assms by (auto simp: ext_def intro: timer_same_trans)
next
  show "prefix (trace w) (trace w2)"
    using assms by (auto simp: ext_def intro: prefix_order.trans)
qed (use assms in \<open>auto simp: ext_def\<close>)

lemma timer_same_stop: "t < length ts \<Longrightarrow> timer_same (ts ! t) (stop_timer i ts ! t)"
  by (simp add: timer_same_def stop_timer_def nth_upd)

lemma ext_stop: "ext w (stopAutomaticCancellation x w)"
  by (simp add: ext_def stopAutomaticCancellation_eq timer_same_stop)

lemma ext_exec_begin: "ext w (exec_begin x as w)"
  by (simp add: ext_def exec_begin_def timer_same_stop nth_upd exec_same_def)

lemma ext_cancel: "ext w (Execution_cancel x w)"
  by (simp add: ext_def Execution_cancel_eq timer_same_stop nth_upd nth_append event_same_def)

lemma ext_flags:
  "ext w (upd_exec x (\<lambda>X. X\<lparr>state := (state X)\<lparr>isExecuting := False, hasExecuted := True\<rparr>\<rparr>) w)"
  by (simp add: ext_def upd_exec_def nth_upd exec_same_def)

lemma ext_afterCallback: "ext w (Execution_afterCallback x w)"
  unfolding Execution_afterCallback_def Let_def
  using ext_flags [of w x] ext_cancel ext_trans by (auto split: if_splits)

lemma ext_suspend: "ext w (suspend x out w)"
  by (simp add: ext_def suspend_def)

lemma ext_register_event: "ext w (snd (register_event name w))"
  by (simp add: ext_def register_event_def nth_append split: option.splits)

lemma ext_Event_addExecution: "ext w (snd (Event_addExecution e cb p w))"
  by (simp add: ext_def Event_addExecution_eq nth_append nth_upd event_same_def)

lemma ext_addEvent: "ext w (snd (EventEmitter_addEvent name cb p w))"
  using ext_register_event [of w name] ext_Event_addExecution ext_trans
  by (auto simp: EventEmitter_addEvent_eq split: prod.splits)

lemma ext_removeEvent: "ext w (EventEmitter_removeEvent name w)"
  by (simp add: ext_def EventEmitter_removeEvent_def)

lemma ext_removeExecution: "ext w (EventEmitter_removeExecution name i w)"
  by (simp add: ext_def EventEmitter_removeExecution_def Event_removeExecution_eq Let_def
        nth_append nth_upd event_same_def split: option.splits)

lemma ext_removeAllEvents: "ext w (EventEmitter_removeAllEvents w)"
  by (simp add: ext_def EventEmitter_removeAllEvents_def)

lemma ext_fire_begin: "ext w (fire_begin t w)"
  by (simp add: ext_def fire_begin_def nth_upd timer_same_def)

lemma ext_drop_frame: "ext w (drop_frame i w)"
  by (simp add: ext_def drop_frame_def)

lemma stable_ext: "stable (\<lambda>w. wf w \<and> ext w0 w)"
  unfolding stable_def stable_sync_def
  using stable_wf [unfolded stable_def stable_sync_def]
  by (auto intro: ext_trans [OF _ ext_stop] ext_trans [OF _ ext_exec_begin]
        ext_trans [OF _ ext_afterCallback] ext_trans [OF _ ext_suspend]
        ext_trans [OF _ ext_addEvent] ext_trans [OF _ ext_removeEvent]
        ext_trans [OF _ ext_removeExecution] ext_trans [OF _ ext_removeAllEvents]
        ext_trans [OF _ ext_fire_begin] ext_trans [OF _ ext_cancel] ext_trans [OF _ ext_drop_frame])

lemma ext_trigger:
  "wf w \<Longrightarrow> x < length (executionHeap w) \<Longrightarrow> ext w (fst (trigger prog d x as w))"
  using sync_trigger [OF stable_sync_of [OF stable_ext], of w w x prog d as] by simp

lemma wf_trigger:
  "wf w \<Longrightarrow> x < length (executionHeap w) \<Longrightarrow> wf (fst (trigger prog d x as w))"
  using sync_trigger [OF stable_sync_of [OF stable_wf], of w x prog d as] by simp

lemma ext_run: "wf w \<Longrightarrow> ext w (run prog d ss w)"
  using stable_run [OF stable_ext, of w w prog d ss] by simp

lemma trigger_Normal [simp]: "snd (trigger prog d x as w) = Normal"
  by (simp add: trigger_def Execution_execute_alt split: prod.splits outcome.splits)

lemma Execution_execute_Normal [simp]: "snd (Execution_execute call x as w) = Normal"
  by (simp add: Execution_execute_alt split: prod.splits outcome.splits)

lemma take_drop_prefix:
  "prefix xs ys \<Longrightarrow> k + n \<le> length xs \<Longrightarrow> take n (drop k ys) = take n (drop k xs)"
  by (auto simp: prefix_def)

lemma forEach_from_visits:
  assumes f_wf: "\<And>x as w. wf w \<Longrightarrow> x < length (executionHeap w) \<Longrightarrow> wf (fst (f x as w))"
    and f_ext: "\<And>x as w. wf w \<Longrightarrow> x < length (executionHeap w) \<Longrightarrow> ext w (fst (f x as w))"
    and f_normal: "\<And>x as w. snd (f x as w) = Normal"
  shows "wf w \<Longrightarrow> a < length (arrayHeap w) \<Longrightarrow> k + n \<le> length (arrayHeap w ! a) \<Longrightarrow>
         snd (forEach_from f a as k n w) =
           (Normal, map (\<lambda>x. (x, as)) (take n (drop k (arrayHeap w ! a))))"
proof (induction n arbitrary: k w)
  case 0
  then show ?case by simp
next
  case (Suc n)
  let ?L = "arrayHeap w ! a"
  let ?x = "?L ! k"
  have k: "k < length ?L" using Suc.prems(3) by simp
  obtain w1 c where fx: "f ?x as w = (w1, c)" by (cases "f ?x as w")
  have c: "c = Normal" using f_normal [of ?x as w] fx by simp
  have xv: "?x < length (executionHeap w)"
    using Suc.prems(1,2) k by (simp add: wf_def)
  have w1: "wf w1" using f_wf [OF Suc.prems(1) xv, of as] fx by simp
  have e1: "ext w w1" using f_ext [OF Suc.prems(1) xv, of as] fx by simp
  then have a1: "a < length (arrayHeap w1)" and p: "prefix ?L (arrayHeap w1 ! a)"
    using Suc.prems(2) by (auto simp: ext_def)
  then have "Suc k + n \<le> length (arrayHeap w1 ! a)"
    using Suc.prems(3) prefix_length_le [OF p] by simp
  from Suc.IH [OF w1 a1 this]
  have "snd (forEach_from f a as (Suc k) n w1) =
          (Normal, map (\<lambda>x. (x, as)) (take n (drop (Suc k) (arrayHeap w1 ! a))))" .
  moreover have "take n (drop (Suc k) (arrayHeap w1 ! a)) = take n (drop (Suc k) ?L)"
    using p Suc.prems(3) by (intro take_drop_prefix) simp_all
  moreover have "take (Suc n) (drop k ?L) = ?x # take n (drop (Suc k) ?L)"
    by (metis k Cons_nth_drop_Suc take_Suc_Cons)
  ultimately show ?case
    using k fx c by (auto split: prod.splits)
qed

lemma Event_fanout_visits:
  assumes "wf w" "e < length (eventHeap w)"
  shows "snd (Event_fanout (trigger prog d) e as w) =
           (Normal, map (\<lambda>x. (x, as)) (arrayHeap w ! executions (eventHeap w ! e)))"
proof -
  have "executions (eventHeap w ! e) < length (arrayHeap w)"
    using assms by (simp add: wf_def)
  from forEach_from_visits [of "trigger prog d", OF wf_trigger ext_trigger trigger_Normal assms(1) this,
      of 0 "length (arrayHeap w ! executions (eventHeap w ! e))" as]
  show ?thesis
    by (simp add: Event_fanout_def Array_forEach_def)
qed

lemma find_event_None_filter:
  "find_event name (w\<lparr>events := filter (\<lambda>e. eventName (eventHeap w ! e) \<noteq> name) (events w)\<rparr>) = None"
  by (auto simp: find_event_def find_None_iff)

lemma find_event_Event_removeExecution:
  "find_event name (Event_removeExecution e i w) = find_event name w"
proof -
  have "eventName (eventHeap (Event_removeExecution e i w) ! e') = eventName (eventHeap w ! e')" for e'
    by (simp add: Event_removeExecution_eq nth_upd)
  then show ?thesis
    by (simp add: find_event_def Event_removeExecution_eq cong: find_cong)
qed

lemma observable_Event_removeExecution_twice:
  assumes "wf w" "e < length (eventHeap w)"
  shows "observable (Event_removeExecution e i (Event_removeExecution e i w)) =
         observable (Event_removeExecution e i w)"
proof -
  have v: "\<forall>e'<length (eventHeap w). executions (eventHeap w ! e') < length (arrayHeap w)"
    using assms(1) by (simp add: wf_def)
  show ?thesis
    using assms(2) v
    by (auto simp: observable_def Event_removeExecution_eq nth_upd nth_append
          intro!: nth_equalityI)
qed

lemma total_Event_removeExecution_twice:
  assumes "e < length (eventHeap w)"
  shows "Event_getTotalExecutions e (Event_removeExecution e i (Event_removeExecution e i w)) =
         Event_getTotalExecutions e (Event_removeExecution e i w)"
  using assms
  by (simp add: Event_getTotalExecutions_def Event_removeExecution_eq nth_upd nth_append)

lemma removed_id_absent:
  assumes "e < length (eventHeap w)"
  shows "\<forall>x\<in>set (arrayHeap (Event_removeExecution e i w) !
            executions (eventHeap (Event_removeExecution e i w) ! e)).
           executionId (executionHeap (Event_removeExecution e i w) ! x) \<noteq> i"
  using assms by (simp add: Event_removeExecution_eq nth_upd nth_append)

text \<open>
  Claim C10. Calling \<open>remove()\<close> of a handle a second time changes nothing that can be
  observed: the emitter, the \<open>Event\<close> objects with the contents of their lists, the
  \<open>Execution\<close> objects, the timers, the suspended calls and the observations are the
  same as after the first call (the second call only builds a fresh array with the same
  contents when the \<open>Event\<close> is still there); the call ends normally, and no \<open>Execution\<close>
  with the handle's id is left under the handle's event name.
\<close>

theorem handle_remove_twice:
  assumes "wf w"
  shows "observable (ListenerActions_remove h (ListenerActions_remove h w)) =
           observable (ListenerActions_remove h w) \<and>
         do_action f (RemoveExecution (fst (remove h)) (snd (remove h))) (ListenerActions_remove h w) =
           (ListenerActions_remove h (ListenerActions_remove h w), Normal) \<and>
         (\<forall>e. find_event (fst (remove h)) (ListenerActions_remove h w) = Some e \<longrightarrow>
            (\<forall>x\<in>set (arrayHeap (ListenerActions_remove h w) !
                      executions (eventHeap (ListenerActions_remove h w) ! e)).
               executionId (executionHeap (ListenerActions_remove h w) ! x) \<noteq> snd (remove h)))"
proof (cases "find_event (fst (remove h)) w")
  case None
  then show ?thesis
    by (simp add: ListenerActions_remove_def EventEmitter_removeExecution_def)
next
  case (Some e)
  let ?n = "fst (remove h)" and ?i = "snd (remove h)"
  let ?w1 = "Event_removeExecution e ?i w"
  have e: "e < length (eventHeap w)"
    using find_event_valid [OF assms Some] by simp
  have f1: "find_event ?n ?w1 = Some e"
    using Some by (simp add: find_event_Event_removeExecution)
  show ?thesis
  proof (cases "Event_getTotalExecutions e ?w1 = 0")
    case True
    then have r: "ListenerActions_remove h w =
        ?w1\<lparr>events := filter (\<lambda>e'. eventName (eventHeap ?w1 ! e') \<noteq> ?n) (events ?w1)\<rparr>"
      using Some by (simp add: ListenerActions_remove_def EventEmitter_removeExecution_def Let_def)
    have "find_event ?n (ListenerActions_remove h w) = None"
      unfolding r by (rule find_event_None_filter)
    then show ?thesis
      by (simp add: ListenerActions_remove_def EventEmitter_removeExecution_def)
  next
    case False
    then have r: "ListenerActions_remove h w = ?w1"
      using Some by (simp add: ListenerActions_remove_def EventEmitter_removeExecution_def Let_def)
    have t: "Event_getTotalExecutions e (Event_removeExecution e ?i ?w1) \<noteq> 0"
      using False total_Event_removeExecution_twice [OF e] by simp
    have r2: "ListenerActions_remove h ?w1 = Event_removeExecution e ?i ?w1"
      using f1 t by (simp add: ListenerActions_remove_def EventEmitter_removeExecution_def Let_def)
    show ?thesis
      unfolding r
      using observable_Event_removeExecution_twice [OF assms e, of ?i] removed_id_absent [OF e, of ?i] f1
      using r2 by (simp add: ListenerActions_remove_def)
  qed
qed

theorem handle_remove_twice_witness:
  "wf three_subscribers \<and>
   observable (ListenerActions_remove \<lparr>remove = (''a'', 1), executionId_of = 1, eventName_of = ''a''\<rparr>
     (ListenerActions_remove \<lparr>remove = (''a'', 1), executionId_of = 1, eventName_of = ''a''\<rparr> three_subscribers)) =
   observable (ListenerActions_remove \<lparr>remove = (''a'', 1), executionId_of = 1, eventName_of = ''a''\<rparr> three_subscribers) \<and>
   find_event ''a'' (ListenerActions_remove \<lparr>remove = (''a'', 1), executionId_of = 1, eventName_of = ''a''\<rparr>
     three_subscribers) = Some 0 \<and>
   arrayHeap (ListenerActions_remove \<lparr>remove = (''a'', 1), executionId_of = 1, eventName_of = ''a''\<rparr>
     three_subscribers) ! 1 = [0, 2]"
proof -
  have w: "wf three_subscribers"
    unfolding three_subscribers_def by (rule wf_run)
  have "find_event ''a'' (ListenerActions_remove \<lparr>remove = (''a'', 1), executionId_of = 1, eventName_of = ''a''\<rparr>
     three_subscribers) = Some 0"
    by code_simp
  moreover have "arrayHeap (ListenerActions_remove \<lparr>remove = (''a'', 1), executionId_of = 1, eventName_of = ''a''\<rparr>
     three_subscribers) ! 1 = [0, 2]"
    by code_simp
  ultimately show ?thesis
    using handle_remove_twice [OF w, of "\<lparr>remove = (''a'', 1), executionId_of = 1, eventName_of = ''a''\<rparr>"] w
    by simp
qed

lemma find_append_last:
  "\<forall>x\<in>set xs. \<not> P x \<Longrightarrow> P y \<Longrightarrow> List.find P (xs @ [y]) = Some y"
  by (induction xs) auto

lemma find_event_register_event:
  assumes "wf w"
  shows "find_event name (snd (register_event name w)) = Some (fst (register_event name w))"
proof (cases "find_event name w")
  case (Some e)
  then show ?thesis by (simp add: register_event_def)
next
  case None
  then have "\<forall>e\<in>set (events w). eventName (eventHeap w ! e) \<noteq> name"
    by (auto simp: find_event_def find_None_iff)
  moreover have "\<forall>e\<in>set (events w). e < length (eventHeap w)"
    using assms by (simp add: wf_def)
  ultimately show ?thesis
    using None
    by (auto simp: register_event_def find_event_def nth_append intro!: find_append_last)
qed

lemma find_event_Event_addExecution:
  "find_event name (snd (Event_addExecution e cb p w)) = find_event name w"
proof -
  have "eventName (eventHeap (snd (Event_addExecution e cb p w)) ! e') = eventName (eventHeap w ! e')" for e'
    by (simp add: Event_addExecution_eq nth_upd)
  then show ?thesis
    by (simp add: find_event_def Event_addExecution_eq cong: find_cong)
qed

lemma addEvent_result:
  assumes "wf w" "EventEmitter_addEvent name cb p w = (h, w1)"
  shows "\<exists>e. find_event name w1 = Some e \<and> e < length (eventHeap w1) \<and>
             executionId_of h + 1 = executionCounter (eventHeap w1 ! e) \<and>
             remove h = (name, executionId_of h) \<and> eventName_of h = name"
proof -
  obtain e w0 where r: "register_event name w = (e, w0)"
    by (cases "register_event name w")
  have w0: "wf w0" "e < length (eventHeap w0)"
    using wf_register_event [OF assms(1), of name] r by simp_all
  have f: "find_event name w0 = Some e"
    using find_event_register_event [OF assms(1), of name] r by simp
  have w1: "w1 = snd (Event_addExecution e cb p w0)"
    and h: "executionId_of h = executionCounter (eventHeap w0 ! e)"
       "remove h = (name, executionId_of h)" "eventName_of h = eventName (eventHeap w0 ! e)"
    using assms(2) r by (auto simp: EventEmitter_addEvent_eq)
  have "find_event name w1 = Some e"
    unfolding w1 using f by (simp add: find_event_Event_addExecution)
  moreover have "executionCounter (eventHeap w1 ! e) = executionCounter (eventHeap w0 ! e) + 1"
    "e < length (eventHeap w1)"
    unfolding w1 using w0(2) by (simp_all add: Event_addExecution_eq)
  moreover have "eventName (eventHeap w0 ! e) = name"
    using find_event_valid [OF w0(1) f] by simp
  ultimately show ?thesis using h by simp
qed

lemma addEvent_id_found:
  assumes "wf w" "find_event name w = Some e" "EventEmitter_addEvent name cb p w = (h, w1)"
  shows "executionId_of h = executionCounter (eventHeap w ! e)"
  using assms(2,3) by (auto simp: EventEmitter_addEvent_eq register_event_def)

text \<open>
  Claim C4 (as stated, it fails). Subscribing, removing and subscribing again to one
  event name gives the id 0 every time: the counter lives in the \<open>Event\<close>, the \<open>Event\<close>
  is dropped with its last \<open>Execution\<close>, and the next subscription creates a new \<open>Event\<close>
  whose counter starts at 0.
\<close>

theorem churn_reuses_ids:
  "fst (churn 3 ''a'' (UserFn 0) (EventEmitter_new ''r'')) = [0, 0, 0] \<and>
   \<not> distinct (fst (churn 3 ''a'' (UserFn 0) (EventEmitter_new ''r'')))"
  by code_simp

text \<open>
  Claim C4, amended. Two subscriptions to one event name that are served by the same
  \<open>Event\<close> object (the \<open>Event\<close> found under the name after the first subscription is
  still the one found when the second is made) get strictly increasing ids, whatever
  happens in between: subscriptions, removals, emissions, timers, completed runs. So
  ids are pairwise distinct and never reused while the \<open>Event\<close> lives.
\<close>

theorem ids_increase_within_event:
  assumes "wf w"
    and "EventEmitter_addEvent name cb1 p1 w = (h1, w1)"
    and "find_event name w1 = Some e"
    and "find_event name (run prog d ss w1) = Some e"
    and "EventEmitter_addEvent name cb2 p2 (run prog d ss w1) = (h2, w3)"
  shows "executionId_of h1 < executionId_of h2"
proof -
  let ?w2 = "run prog d ss w1"
  have w1: "wf w1"
    using wf_addEvent [OF assms(1), of name cb1 p1] assms(2) by simp
  have c1: "e < length (eventHeap w1)" "executionId_of h1 + 1 = executionCounter (eventHeap w1 ! e)"
    using addEvent_result [OF assms(1,2)] assms(3) by auto
  have w2: "wf ?w2"
    by (rule stable_run [OF stable_wf w1])
  have "ext w1 ?w2"
    by (rule ext_run [OF w1])
  then have "executionCounter (eventHeap w1 ! e) \<le> executionCounter (eventHeap ?w2 ! e)"
    using c1(1) by (simp add: ext_def event_same_def)
  moreover have "executionId_of h2 = executionCounter (eventHeap ?w2 ! e)"
    by (rule addEvent_id_found [OF w2 assms(4,5)])
  ultimately show ?thesis
    using c1(2) by simp
qed

theorem ids_increase_within_event_witness:
  "wf (EventEmitter_new ''r'') \<and>
   find_event ''a'' (snd (EventEmitter_addEvent ''a'' (UserFn 0) None (EventEmitter_new ''r''))) = Some 0 \<and>
   find_event ''a'' (run demo 1 [Call (AddEvent ''a'' (UserFn 3) None), Call (RemoveExecution ''a'' 0),
      Call (EmitEvent ''a'' [])]
      (snd (EventEmitter_addEvent ''a'' (UserFn 0) None (EventEmitter_new ''r'')))) = Some 0 \<and>
   executionId_of (fst (EventEmitter_addEvent ''a'' (UserFn 0) None (EventEmitter_new ''r''))) <
   executionId_of (fst (EventEmitter_addEvent ''a'' (UserFn 0) None
     (run demo 1 [Call (AddEvent ''a'' (UserFn 3) None), Call (RemoveExecution ''a'' 0),
        Call (EmitEvent ''a'' [])]
        (snd (EventEmitter_addEvent ''a'' (UserFn 0) None (EventEmitter_new ''r''))))))"
proof -
  let ?w = "EventEmitter_new ''r''"
  let ?r1 = "EventEmitter_addEvent ''a'' (UserFn 0) None ?w"
  let ?w2 = "run demo 1 [Call (AddEvent ''a'' (UserFn 3) None), Call (RemoveExecution ''a'' 0),
      Call (EmitEvent ''a'' [])] (snd ?r1)"
  let ?r2 = "EventEmitter_addEvent ''a'' (UserFn 0) None ?w2"
  have f1: "find_event ''a'' (snd ?r1) = Some 0" by code_simp
  have f2: "find_event ''a'' ?w2 = Some 0" by code_simp
  show ?thesis
    using ids_increase_within_event [OF wf_new, of "''a''" "UserFn 0" None "''r''" "fst ?r1" "snd ?r1"
        0 demo 1 "[Call (AddEvent ''a'' (UserFn 3) None), Call (RemoveExecution ''a'' 0),
      Call (EmitEvent ''a'' [])]" "UserFn 0" None "fst ?r2" "snd ?r2"] f1 f2 wf_new [of "''r''"]
    by simp
qed

lemma forEach_from_Normal:
  assumes "\<And>x as w. snd (f x as w) = Normal"
  shows "fst (snd (forEach_from f a as k n w)) = Normal"
proof (induction n arbitrary: k w)
  case 0
  then show ?case by simp
next
  case (Suc n)
  show ?case
  proof (cases "k < length (arrayHeap w ! a)")
    case False
    then show ?thesis using Suc.IH by simp
  next
    case True
    obtain w1 c where fx: "f (arrayHeap w ! a ! k) as w = (w1, c)"
      by (cases "f (arrayHeap w ! a ! k) as w")
    then have "c = Normal" using assms [of "arrayHeap w ! a ! k" as w] by simp
    then show ?thesis
      using True fx Suc.IH [of "Suc k" w1] by (auto split: prod.splits)
  qed
qed

lemma emitEvent_Normal:
  assumes "\<And>x as w. snd (f x as w) = Normal"
  shows "snd (EventEmitter_emitEvent f name as w) = Normal"
  using forEach_from_Normal [of f, OF assms]
  by (auto simp: EventEmitter_emitEvent_def Event_execute_def Event_fanout_def Array_forEach_def
        split: option.splits prod.splits) (metis fst_conv snd_conv)

lemma afterCallback_flags:
  assumes "x < length (executionHeap w)"
  shows "\<not> isExecuting (state (executionHeap (Execution_afterCallback x w) ! x)) \<and>
         hasExecuted (state (executionHeap (Execution_afterCallback x w) ! x))"
  using assms
  by (simp add: Execution_afterCallback_def Let_def Execution_cancel_eq upd_exec_def)

lemma cancel_detaches:
  assumes "wf w" "x < length (executionHeap w)"
  shows "\<not> attached x (Execution_cancel x w)"
proof -
  have "eventInstance (executionHeap w ! x) < length (eventHeap w)"
    using assms by (simp add: wf_def)
  then show ?thesis
    by (simp add: attached_def Execution_cancel_eq nth_upd nth_append)
qed

lemma afterCallback_detaches:
  assumes "wf w" "x < length (executionHeap w)" "removeAfterExecute (parameters (executionHeap w ! x))"
  shows "\<not> attached x (Execution_afterCallback x w)"
proof -
  let ?w1 = "upd_exec x (\<lambda>X. X\<lparr>state := (state X)\<lparr>isExecuting := False, hasExecuted := True\<rparr>\<rparr>) w"
  have "wf ?w1" using assms(1) by (rule wf_flags)
  moreover have "x < length (executionHeap ?w1)" using assms(2) by (simp add: upd_exec_def)
  ultimately have "\<not> attached x (Execution_cancel x ?w1)" by (rule cancel_detaches)
  moreover have "removeAfterExecute (parameters (executionHeap ?w1 ! x))"
    using assms(2,3) by (simp add: upd_exec_def)
  ultimately show ?thesis
    by (simp add: Execution_afterCallback_def Let_def)
qed

lemma resume_last_frame:
  "do_step prog d (Resume (length (suspended w))) (suspend x out w) = (Execution_afterCallback x w, Normal)"
  by (simp add: suspend_def)

lemma invoke_from_begin:
  assumes "wf w" "x < length (executionHeap w)"
    and "invoke prog d g as (exec_begin x as' w) = (w3, out)"
  shows "wf w3 \<and> ext w w3"
proof -
  have b: "wf (exec_begin x as' w) \<and> ext w (exec_begin x as' w)"
    using assms(1) by (simp add: wf_exec_begin ext_exec_begin)
  from sync_invoke [OF stable_sync_of [OF stable_ext [of w]], of "exec_begin x as' w" prog d g as, OF b]
  show ?thesis using assms(3) by simp
qed

lemma expirations_append [simp]: "expirations x (tr @ tr') = expirations x tr @ expirations x tr'"
  by (simp add: expirations_def)

lemma expirations_Invoked [simp]: "expirations x [Invoked y as] = []"
  by (simp add: expirations_def)

lemma expirations_Expired [simp]: "expirations x [Expired y b] = (if y = x then [Expired y b] else [])"
  by (simp add: expirations_def)

lemma expirations_fresh:
  assumes "\<forall>y b. Expired y b \<in> set tr \<longrightarrow> y < n"
  shows "expirations n tr = []"
  using assms by (auto simp: expirations_def filter_empty_conv split: obs.splits)

lemma pending_stop_timer_iff:
  "t < length ts \<Longrightarrow> pending (stop_timer i ts ! t) \<longleftrightarrow> pending (ts ! t) \<and> i \<noteq> int t"
  by (auto simp: stop_timer_def nth_upd)

lemma timers_ok_wf: "timers_ok w \<Longrightarrow> wf w"
  by (simp add: timers_ok_def)

lemma tok_stop: "timers_ok w \<Longrightarrow> timers_ok (stopAutomaticCancellation x w)"
  unfolding timers_ok_def
  by (intro conjI wf_stop)
     (auto simp: stopAutomaticCancellation_eq pending_stop_timer_iff disarmed_def)

lemma stop_disarms:
  assumes "timers_ok w"
  shows "disarmed x (stopAutomaticCancellation x w)"
  using assms
  by (auto simp: timers_ok_def disarmed_def stopAutomaticCancellation_eq pending_stop_timer_iff)

lemma tok_exec_begin: "timers_ok w \<Longrightarrow> timers_ok (exec_begin x as w)"
  unfolding timers_ok_def
  apply (intro conjI wf_exec_begin)
       apply (auto simp: exec_begin_def pending_stop_timer_iff disarmed_def nth_upd)
  done

lemma tok_flags:
  "timers_ok w \<Longrightarrow>
   timers_ok (upd_exec x (\<lambda>X. X\<lparr>state := (state X)\<lparr>isExecuting := False, hasExecuted := True\<rparr>\<rparr>) w)"
  unfolding timers_ok_def
  apply (intro conjI wf_flags)
       apply (auto simp: upd_exec_def disarmed_def nth_upd)
  done

lemma tok_cancel: "timers_ok w \<Longrightarrow> x < length (executionHeap w) \<Longrightarrow> timers_ok (Execution_cancel x w)"
  unfolding timers_ok_def
  apply (intro conjI wf_cancel)
        apply (auto simp: Execution_cancel_eq pending_stop_timer_iff disarmed_def)
  done

lemma tok_afterCallback:
  "timers_ok w \<Longrightarrow> x < length (executionHeap w) \<Longrightarrow> timers_ok (Execution_afterCallback x w)"
  unfolding Execution_afterCallback_def Let_def
  using tok_flags [of w x]
    tok_cancel [of "upd_exec x (\<lambda>X. X\<lparr>state := (state X)\<lparr>isExecuting := False, hasExecuted := True\<rparr>\<rparr>) w" x]
  by (auto simp: upd_exec_def)

lemma tok_suspend: "timers_ok w \<Longrightarrow> x < length (executionHeap w) \<Longrightarrow> timers_ok (suspend x out w)"
  unfolding timers_ok_def
  by (intro conjI wf_suspend) (auto simp: suspend_def disarmed_def)

lemma tok_register_event: "timers_ok w \<Longrightarrow> timers_ok (snd (register_event name w))"
  unfolding timers_ok_def
  apply (intro conjI)
  using wf_register_event apply blast
      apply (auto simp: register_event_def disarmed_def split: option.splits)
  done

lemma wf_timer_ref:
  "wf w \<Longrightarrow> x < length (executionHeap w) \<Longrightarrow> expirationTimeout (state (executionHeap w ! x)) \<noteq> - 1 \<Longrightarrow>
   nat (expirationTimeout (state (executionHeap w ! x))) < length (timers w) \<and>
   0 \<le> expirationTimeout (state (executionHeap w ! x))"
  by (auto simp: wf_def timer_ref_ok_def)

lemma wf_owner: "wf w \<Longrightarrow> t < length (timers w) \<Longrightarrow> owner (timers w ! t) < length (executionHeap w)"
  by (simp add: wf_def)

lemma new_Execution_state [simp]:
  "isExecuting (state (new_Execution e i cb p t)) = False"
  "expirationTimeout (state (new_Execution e i cb p t)) = (if new_timers 0 p = [] then - 1 else int t)"
  by (simp_all add: new_Execution_def)

lemma new_timers_cases:
  "(new_timers x p = [] \<and> new_timers 0 p = []) \<or>
   (\<exists>ms. new_timers x p = [\<lparr>owner = x, delay = ms, pending = True\<rparr>] \<and> new_timers 0 p \<noteq> [])"
  by (auto simp add: new_timers_def split: option.splits)

lemma tok_Event_addExecution:
  assumes "timers_ok w" "e < length (eventHeap w)"
  shows "timers_ok (snd (Event_addExecution e cb p w))"
proof -
  let ?w' = "snd (Event_addExecution e cb p w)"
  let ?n = "length (executionHeap w)"
  have wf: "wf w" using assms(1) by (rule timers_ok_wf)
  have wf': "wf ?w'" using wf assms(2) by (rule wf_Event_addExecution)
  have ts: "timers ?w' = timers w @ new_timers ?n p"
    and xs: "executionHeap ?w' = executionHeap w @
        [new_Execution e (executionCounter (eventHeap w ! e)) cb p (length (timers w))]"
    and tr: "trace ?w' = trace w"
    by (simp_all add: Event_addExecution_eq)
  have own: "owner (timers w ! t) < ?n" if "t < length (timers w)" for t
    using wf that by (rule wf_owner)
  have fresh: "expirations ?n (trace w) = []"
    using assms(1) by (intro expirations_fresh) (simp add: timers_ok_def)
  have j: "\<forall>t<length (timers ?w'). pending (timers ?w' ! t) \<longrightarrow>
        expirationTimeout (state (executionHeap ?w' ! owner (timers ?w' ! t))) = int t"
    using assms(1) own new_timers_cases [of ?n p]
    by (auto simp: ts xs nth_append timers_ok_def)
  have k: "\<forall>x<length (executionHeap ?w'). isExecuting (state (executionHeap ?w' ! x)) \<longrightarrow> disarmed x ?w'"
    using assms(1) own new_timers_cases [of ?n p]
    by (auto simp: ts xs nth_append timers_ok_def disarmed_def less_Suc_eq)
  have l: "\<forall>x<length (executionHeap ?w'). expirationTimeout (state (executionHeap ?w' ! x)) \<noteq> - 1 \<longrightarrow>
        owner (timers ?w' ! nat (expirationTimeout (state (executionHeap ?w' ! x)))) = x"
    using assms(1) wf_timer_ref [OF wf] new_timers_cases [of ?n p]
    by (auto simp: ts xs nth_append timers_ok_def less_Suc_eq split: if_splits)
  have p: "\<forall>t<length (timers ?w'). pending (timers ?w' ! t) \<longrightarrow>
        expirations (owner (timers ?w' ! t)) (trace ?w') = []"
    using assms(1) fresh new_timers_cases [of ?n p]
    by (auto simp: ts tr nth_append timers_ok_def)
  have q: "\<forall>y b. Expired y b \<in> set (trace ?w') \<longrightarrow> y < length (executionHeap ?w')"
    using assms(1) by (auto simp: tr xs timers_ok_def less_Suc_eq)
  show ?thesis
    unfolding timers_ok_def using wf' j k l p q by blast
qed

lemma tok_addEvent: "timers_ok w \<Longrightarrow> timers_ok (snd (EventEmitter_addEvent name cb p w))"
  using tok_register_event [of w name] wf_register_event [of w name] timers_ok_wf [of w]
  by (auto simp: EventEmitter_addEvent_eq split: prod.splits intro: tok_Event_addExecution)

lemma tok_events: "timers_ok w \<Longrightarrow> wf (w\<lparr>events := es\<rparr>) \<Longrightarrow> timers_ok (w\<lparr>events := es\<rparr>)"
  by (simp add: timers_ok_def disarmed_def)

lemma tok_removeEvent: "timers_ok w \<Longrightarrow> timers_ok (EventEmitter_removeEvent name w)"
  using wf_removeEvent [of w name] timers_ok_wf [of w]
  by (auto simp: EventEmitter_removeEvent_def intro: tok_events)

lemma tok_removeAllEvents: "timers_ok w \<Longrightarrow> timers_ok (EventEmitter_removeAllEvents w)"
  using wf_removeAllEvents [of w] timers_ok_wf [of w]
  by (auto simp: EventEmitter_removeAllEvents_def intro: tok_events)

lemma tok_Event_removeExecution:
  "timers_ok w \<Longrightarrow> e < length (eventHeap w) \<Longrightarrow> timers_ok (Event_removeExecution e i w)"
  unfolding timers_ok_def
  by (intro conjI wf_Event_removeExecution) (auto simp: Event_removeExecution_eq disarmed_def)

lemma tok_removeExecution: "timers_ok w \<Longrightarrow> timers_ok (EventEmitter_removeExecution name i w)"
proof (cases "find_event name w")
  case None
  then show "timers_ok w \<Longrightarrow> ?thesis" by (simp add: EventEmitter_removeExecution_def)
next
  case (Some e)
  assume w: "timers_ok w"
  then have "timers_ok (Event_removeExecution e i w)"
    using Some find_event_valid tok_Event_removeExecution timers_ok_wf by blast
  moreover have "wf (EventEmitter_removeExecution name i w)"
    using w timers_ok_wf wf_removeExecution by blast
  ultimately show ?thesis
    using Some
    by (auto simp: EventEmitter_removeExecution_def Let_def intro: tok_events)
qed

lemma tok_fire_begin:
  assumes "timers_ok w" "t < length (timers w)" "pending (timers w ! t)"
  shows "timers_ok (fire_begin t w)"
proof -
  let ?w' = "fire_begin t w"
  have o: "owner (timers w ! t) < length (executionHeap w)"
    using assms(1,2) timers_ok_wf wf_owner by blast
  have j: "expirationTimeout (state (executionHeap w ! owner (timers w ! s))) = int s"
    if "s < length (timers w)" "pending (timers w ! s)" for s
    using assms(1) that by (simp add: timers_ok_def)
  have d: "owner (timers w ! t') \<noteq> owner (timers w ! t)"
    if "t' < length (timers w)" "pending (timers w ! t')" "t' \<noteq> t" for t'
    using j [OF assms(2,3)] j [OF that(1,2)] that(3) by auto
  have p0: "expirations (owner (timers w ! s)) (trace w) = []"
    if "s < length (timers w)" "pending (timers w ! s)" for s
    using assms(1) that by (simp add: timers_ok_def)
  have j': "\<forall>s<length (timers ?w'). pending (timers ?w' ! s) \<longrightarrow>
        expirationTimeout (state (executionHeap ?w' ! owner (timers ?w' ! s))) = int s"
    using j by (auto simp: fire_begin_def nth_upd split: if_splits)
  have k': "\<forall>x<length (executionHeap ?w'). isExecuting (state (executionHeap ?w' ! x)) \<longrightarrow> disarmed x ?w'"
    using assms(1) by (auto simp: fire_begin_def nth_upd disarmed_def timers_ok_def)
  have l': "\<forall>x<length (executionHeap ?w'). expirationTimeout (state (executionHeap ?w' ! x)) \<noteq> - 1 \<longrightarrow>
        owner (timers ?w' ! nat (expirationTimeout (state (executionHeap ?w' ! x)))) = x"
    using assms(1) by (auto simp: fire_begin_def nth_upd timers_ok_def)
  have p': "\<forall>s<length (timers ?w'). pending (timers ?w' ! s) \<longrightarrow>
        expirations (owner (timers ?w' ! s)) (trace ?w') = []"
  proof (intro allI impI)
    fix s assume s: "s < length (timers ?w')" "pending (timers ?w' ! s)"
    then have "s < length (timers w)" "pending (timers w ! s)" "s \<noteq> t"
      by (auto simp: fire_begin_def nth_upd split: if_splits)
    then show "expirations (owner (timers ?w' ! s)) (trace ?w') = []"
      using p0 [of s] d [of s] by (simp add: fire_begin_def nth_upd)
  qed
  have q': "\<forall>y b. Expired y b \<in> set (trace ?w') \<longrightarrow> y < length (executionHeap ?w')"
    using assms(1) o by (auto simp: fire_begin_def timers_ok_def)
  show ?thesis
    unfolding timers_ok_def
    using wf_fire_begin [OF timers_ok_wf [OF assms(1)], of t] j' k' l' p' q' by blast
qed

lemma tok_drop_frame: "timers_ok w \<Longrightarrow> timers_ok (drop_frame i w)"
  unfolding timers_ok_def
  by (intro conjI wf_drop_frame) (auto simp: drop_frame_def disarmed_def)

lemma stable_timers_ok: "stable timers_ok"
  unfolding stable_def stable_sync_def
  by (intro conjI allI impI timers_ok_wf tok_stop tok_exec_begin tok_afterCallback tok_suspend
        tok_addEvent tok_removeEvent tok_removeExecution tok_removeAllEvents tok_fire_begin
        tok_cancel tok_drop_frame)

lemma timers_ok_new: "timers_ok (EventEmitter_new name)"
  by (simp add: timers_ok_def wf_new) (simp add: EventEmitter_new_def)

lemma timers_ok_run: "timers_ok (run prog d ss (EventEmitter_new name))"
  by (rule stable_run [OF stable_timers_ok timers_ok_new])

lemma quiet_stop: "quiet x tr w \<Longrightarrow> quiet x tr (stopAutomaticCancellation y w)"
  unfolding quiet_def
  by (intro conjI tok_stop)
     (auto simp: stopAutomaticCancellation_eq disarmed_def pending_stop_timer_iff)

lemma quiet_exec_begin: "quiet x tr w \<Longrightarrow> quiet x tr (exec_begin y as w)"
  unfolding quiet_def
  by (intro conjI tok_exec_begin)
     (auto simp: exec_begin_def disarmed_def pending_stop_timer_iff)

lemma quiet_cancel: "quiet x tr w \<Longrightarrow> y < length (executionHeap w) \<Longrightarrow> quiet x tr (Execution_cancel y w)"
  unfolding quiet_def
  by (intro conjI tok_cancel)
     (auto simp: Execution_cancel_eq disarmed_def pending_stop_timer_iff)

lemma quiet_afterCallback:
  "quiet x tr w \<Longrightarrow> y < length (executionHeap w) \<Longrightarrow> quiet x tr (Execution_afterCallback y w)"
  unfolding quiet_def
  by (intro conjI tok_afterCallback)
     (auto simp: Execution_afterCallback_def Let_def Execution_cancel_eq upd_exec_def disarmed_def
        pending_stop_timer_iff)

lemma quiet_suspend: "quiet x tr w \<Longrightarrow> y < length (executionHeap w) \<Longrightarrow> quiet x tr (suspend y out w)"
  unfolding quiet_def
  by (intro conjI tok_suspend) (auto simp: suspend_def disarmed_def)

lemma quiet_addEvent: "quiet x tr w \<Longrightarrow> quiet x tr (snd (EventEmitter_addEvent name cb p w))"
  unfolding quiet_def
  apply (intro conjI tok_addEvent)
     apply simp
  using new_timers_cases [of "length (executionHeap (snd (register_event name w)))" p]
    apply (auto simp: EventEmitter_addEvent_eq Event_addExecution_eq register_event_def disarmed_def
      nth_append split: prod.splits option.splits)
  done

lemma quiet_removeEvent: "quiet x tr w \<Longrightarrow> quiet x tr (EventEmitter_removeEvent name w)"
  unfolding quiet_def
  by (intro conjI tok_removeEvent) (auto simp: EventEmitter_removeEvent_def disarmed_def)

lemma quiet_removeExecution: "quiet x tr w \<Longrightarrow> quiet x tr (EventEmitter_removeExecution name i w)"
  unfolding quiet_def
  by (intro conjI tok_removeExecution)
     (auto simp: EventEmitter_removeExecution_def Event_removeExecution_eq Let_def disarmed_def
        split: option.splits)

lemma quiet_removeAllEvents: "quiet x tr w \<Longrightarrow> quiet x tr (EventEmitter_removeAllEvents w)"
  unfolding quiet_def
  by (intro conjI tok_removeAllEvents) (auto simp: EventEmitter_removeAllEvents_def disarmed_def)

lemma quiet_fire_begin:
  "quiet x tr w \<Longrightarrow> t < length (timers w) \<Longrightarrow> pending (timers w ! t) \<Longrightarrow> quiet x tr (fire_begin t w)"
  unfolding quiet_def
  by (intro conjI tok_fire_begin) (auto simp: fire_begin_def disarmed_def nth_upd)

lemma quiet_drop_frame: "quiet x tr w \<Longrightarrow> quiet x tr (drop_frame i w)"
  unfolding quiet_def
  by (intro conjI tok_drop_frame) (auto simp: drop_frame_def disarmed_def)

lemma stable_quiet: "stable (quiet x tr)"
  unfolding stable_def stable_sync_def
  apply (intro conjI allI impI quiet_stop quiet_exec_begin quiet_afterCallback quiet_suspend
      quiet_addEvent quiet_removeEvent quiet_removeExecution quiet_removeAllEvents quiet_fire_begin
      quiet_cancel quiet_drop_frame)
                      apply (simp_all add: quiet_def timers_ok_wf)
  done

lemma quiet_after_trigger:
  assumes "timers_ok w" "x < length (executionHeap w)"
  shows "quiet x (expirations x (trace w)) (fst (trigger prog d x as w))"
proof (cases "dropped x w")
  case True
  have "quiet x (expirations x (trace w)) (stopAutomaticCancellation x w)"
    unfolding quiet_def
    using assms tok_stop [OF assms(1), of x] stop_disarms [OF assms(1), of x]
    by (simp add: stopAutomaticCancellation_eq)
  then show ?thesis
    using True by (simp add: trigger_def Execution_execute_alt)
next
  case False
  let ?g = "callbackFunction (executionHeap w ! x)"
  let ?tr = "expirations x (trace w)"
  obtain w3 out where c: "invoke prog d ?g as (exec_begin x as w) = (w3, out)"
    by (cases "invoke prog d ?g as (exec_begin x as w)")
  have "disarmed x (exec_begin x as w)"
    using stop_disarms [OF assms(1), of x]
    by (simp add: disarmed_def exec_begin_def stopAutomaticCancellation_eq)
  then have b: "quiet x ?tr (exec_begin x as w)"
    unfolding quiet_def
    using assms tok_exec_begin [OF assms(1), of x as] by (simp add: exec_begin_def)
  have q3: "quiet x ?tr w3"
    using sync_invoke [OF stable_sync_of [OF stable_quiet] b, of prog d ?g as] c by simp
  then have "x < length (executionHeap w3)"
    by (simp add: quiet_def)
  then have "quiet x ?tr (Execution_afterCallback x w3)" "quiet x ?tr (suspend x out w3)"
    using q3 by (simp_all add: quiet_afterCallback quiet_suspend)
  then show ?thesis
    using False c by (cases out) (simp_all add: trigger_def Execution_execute_alt)
qed

text \<open>
  Claim C9. Any call of \<open>execute\<close> on an \<open>Execution\<close> disarms its expiration timer, the
  call the \<open>onlyOneExecutionAtATime\<close> guard drops included (the timer is stopped before
  the guard is looked at): afterwards no timer of the \<open>Execution\<close> is due, and whatever
  happens later its expiration callback is never called.
\<close>

theorem trigger_disarms_expiration:
  assumes "timers_ok w" and "x < length (executionHeap w)"
  shows "disarmed x (fst (trigger prog d x as w)) \<and>
         expirations x (trace (fst (trigger prog d x as w))) = expirations x (trace w) \<and>
         (\<forall>ss d'. expirations x (trace (run prog d' ss (fst (trigger prog d x as w)))) =
                   expirations x (trace w))"
proof -
  have q: "quiet x (expirations x (trace w)) (fst (trigger prog d x as w))"
    using assms by (rule quiet_after_trigger)
  have "quiet x (expirations x (trace w)) (run prog d' ss (fst (trigger prog d x as w)))" for ss d'
    by (rule stable_run [OF stable_quiet q])
  then show ?thesis
    using q by (simp add: quiet_def)
qed

theorem trigger_disarms_expiration_witness:
  "timers_ok expiring_only \<and> 0 < length (executionHeap expiring_only) \<and>
   pending (timers expiring_only ! 0) \<and> owner (timers expiring_only ! 0) = 0 \<and>
   disarmed 0 (fst (trigger demo 1 0 [] expiring_only)) \<and>
   \<not> pending (timers (fst (trigger demo 1 0 [] expiring_only)) ! 0) \<and>
   expirations 0 (trace (run demo 1 [Fire 0] (fst (trigger demo 1 0 [] expiring_only)))) = []"
proof -
  have t: "timers_ok expiring_only"
    unfolding expiring_only_def by (rule timers_ok_run)
  have x: "0 < length (executionHeap expiring_only)" by code_simp
  have p: "pending (timers expiring_only ! 0) \<and> owner (timers expiring_only ! 0) = 0" by code_simp
  have n: "\<not> pending (timers (fst (trigger demo 1 0 [] expiring_only)) ! 0)" by code_simp
  have e: "expirations 0 (trace expiring_only) = []" by code_simp
  show ?thesis
    using trigger_disarms_expiration [OF t x, of demo 1 "[]"] t x p n e by simp
qed

lemma quiet_fire_begin_owner:
  assumes "timers_ok w" "t < length (timers w)" "pending (timers w ! t)"
  shows "quiet (owner (timers w ! t)) [Expired (owner (timers w ! t)) (attached (owner (timers w ! t)) w)]
           (fire_begin t w)"
proof -
  let ?x = "owner (timers w ! t)"
  have j: "expirationTimeout (state (executionHeap w ! owner (timers w ! s))) = int s"
    if "s < length (timers w)" "pending (timers w ! s)" for s
    using assms(1) that by (simp add: timers_ok_def)
  have "s = t" if "s < length (timers w)" "pending (timers w ! s)" "owner (timers w ! s) = ?x" for s
    using j [OF assms(2,3)] j [OF that(1,2)] that(3) by auto
  then have d: "disarmed ?x (fire_begin t w)"
    by (auto simp: disarmed_def fire_begin_def nth_upd)
  have "expirations ?x (trace w) = []"
    using assms by (simp add: timers_ok_def)
  then have e: "expirations ?x (trace (fire_begin t w)) = [Expired ?x (attached ?x w)]"
    by (simp add: fire_begin_def)
  have "?x < length (executionHeap (fire_begin t w))"
    using assms(1,2) timers_ok_wf wf_owner by (fastforce simp: fire_begin_def)
  then show ?thesis
    unfolding quiet_def using tok_fire_begin [OF assms] d e by simp
qed

text \<open>
  Claim C8 (fails on the code). For an \<open>Execution\<close> with an expiration that is never
  triggered and never removed, the firing of the timer should call the expiration callback
  once and then take the \<open>Execution\<close> out of its \<open>Event\<close>. The closure handed to
  \<open>setTimeout\<close> is \<open>callback(); this.cancel();\<close> with nothing around the call: when the
  expiration callback throws (a missing callback does, with a \<open>TypeError\<close>), \<open>cancel\<close> is
  skipped. Here the subscription is made with an expiration callback that throws; when
  the timer fires the callback is called, the error leaves the closure, and the
  \<open>Execution\<close> is still in its \<open>Event\<close>, which still counts one \<open>Execution\<close>; a later
  emission calls its callback.
\<close>

theorem throwing_onExpire_stays_attached:
  "pending (timers expiring_throwing ! 0) \<and> owner (timers expiring_throwing ! 0) = 0 \<and>
   attached 0 expiring_throwing \<and> trace expiring_throwing = [] \<and>
   trace (fst (do_step demo 1 (Fire 0) expiring_throwing)) = [Expired 0 True] \<and>
   snd (do_step demo 1 (Fire 0) expiring_throwing) = Thrown \<and>
   attached 0 (fst (do_step demo 1 (Fire 0) expiring_throwing)) \<and>
   find_event ''a'' (fst (do_step demo 1 (Fire 0) expiring_throwing)) = Some 0 \<and>
   Event_getTotalExecutions 0 (fst (do_step demo 1 (Fire 0) expiring_throwing)) = 1 \<and>
   trace (run demo 1 [Fire 0, Call (EmitEvent ''a'' [])] expiring_throwing) =
     [Expired 0 True, Invoked 0 []]"
  by code_simp

text \<open>
  What the closure does guarantee. When the timer of an \<open>Execution\<close> \<open>x\<close> that is still
  in its \<open>Event\<close> fires, the expiration callback had not been called for \<open>x\<close> before, it
  is called once, while \<open>x\<close> is still in its \<open>Event\<close>, afterwards no timer of \<open>x\<close> is due
  and the expiration callback is never called for \<open>x\<close> again, whether it throws or not.
  When it returns without throwing, \<open>cancel\<close> is reached and \<open>x\<close> is out of its \<open>Event\<close>.
\<close>

lemma expiration_fires_once:
  assumes "timers_ok w" and "t < length (timers w)" and "pending (timers w ! t)"
    and "attached (owner (timers w ! t)) w"
  shows "expirations (owner (timers w ! t)) (trace w) = [] \<and>
         expirations (owner (timers w ! t)) (trace (fst (do_step prog d (Fire t) w))) =
           [Expired (owner (timers w ! t)) True] \<and>
         disarmed (owner (timers w ! t)) (fst (do_step prog d (Fire t) w)) \<and>
         (\<forall>ss d'. expirations (owner (timers w ! t))
                     (trace (run prog d' ss (fst (do_step prog d (Fire t) w)))) =
                   [Expired (owner (timers w ! t)) True]) \<and>
         (snd (invoke prog d (callback (expirationCallback (parameters
             (executionHeap w ! owner (timers w ! t))))) [] (fire_begin t w)) \<noteq> Throws \<longrightarrow>
            snd (do_step prog d (Fire t) w) = Normal \<and>
            \<not> attached (owner (timers w ! t)) (fst (do_step prog d (Fire t) w)))"
proof -
  let ?x = "owner (timers w ! t)"
  let ?g = "callback (expirationCallback (parameters (executionHeap w ! ?x)))"
  let ?tr = "[Expired ?x True]"
  let ?v = "fst (do_step prog d (Fire t) w)"
  obtain w1 out where c: "invoke prog d ?g [] (fire_begin t w) = (w1, out)"
    by (cases "invoke prog d ?g [] (fire_begin t w)")
  have b: "quiet ?x ?tr (fire_begin t w)"
    using quiet_fire_begin_owner [OF assms(1-3)] assms(4) by simp
  have q1: "quiet ?x ?tr w1"
    using sync_invoke [OF stable_sync_of [OF stable_quiet] b, of prog d ?g "[]"] c by simp
  then have x1: "?x < length (executionHeap w1)" and wf1: "wf w1"
    by (simp_all add: quiet_def timers_ok_wf)
  have q2: "quiet ?x ?tr (Execution_cancel ?x w1)"
    using q1 x1 by (rule quiet_cancel)
  have r: "do_step prog d (Fire t) w =
      (if out = Throws then (w1, Thrown) else (Execution_cancel ?x w1, Normal))"
    using assms(2,3) c by (cases out) (simp_all add: timeout_closure_alt)
  have q: "quiet ?x ?tr ?v"
    unfolding r using q1 q2 by simp
  have "quiet ?x ?tr (run prog d' ss ?v)" for ss d'
    by (rule stable_run [OF stable_quiet q])
  moreover have "\<not> attached ?x (Execution_cancel ?x w1)"
    using wf1 x1 by (rule cancel_detaches)
  then have "out \<noteq> Throws \<Longrightarrow> snd (do_step prog d (Fire t) w) = Normal \<and> \<not> attached ?x ?v"
    unfolding r by simp
  moreover have "expirations ?x (trace w) = []"
    using assms(1-3) by (simp add: timers_ok_def)
  ultimately show ?thesis
    using q c by (simp add: quiet_def del: do_step.simps)
qed

lemma expiration_fires_once_example:
  "timers_ok expiring_only \<and> 0 < length (timers expiring_only) \<and> pending (timers expiring_only ! 0) \<and>
   owner (timers expiring_only ! 0) = 0 \<and> attached 0 expiring_only \<and>
   snd (invoke demo 1 (callback (expirationCallback (parameters (executionHeap expiring_only ! 0)))) []
          (fire_begin 0 expiring_only)) = Resolves \<and>
   trace (fst (do_step demo 1 (Fire 0) expiring_only)) = [Expired 0 True] \<and>
   \<not> attached 0 (fst (do_step demo 1 (Fire 0) expiring_only)) \<and>
   expirations 0 (trace (run demo 1 [Fire 0, Call (EmitEvent ''a'' [])]
      (fst (do_step demo 1 (Fire 0) expiring_only)))) = [Expired 0 True]"
proof -
  have t: "timers_ok expiring_only"
    unfolding expiring_only_def by (rule timers_ok_run)
  have l: "0 < length (timers expiring_only)" by code_simp
  have p: "pending (timers expiring_only ! 0)" by code_simp
  have o: "owner (timers expiring_only ! 0) = 0" by code_simp
  have a: "attached (owner (timers expiring_only ! 0)) expiring_only" by code_simp
  have r: "snd (invoke demo 1 (callback (expirationCallback (parameters
        (executionHeap expiring_only ! owner (timers expiring_only ! 0))))) []
          (fire_begin 0 expiring_only)) = Resolves" by code_simp
  have tr: "trace (fst (do_step demo 1 (Fire 0) expiring_only)) = [Expired 0 True]" by code_simp
  show ?thesis
    using expiration_fires_once [OF t l p a, of demo 1] t l p o a r tr
    by (simp del: do_step.simps)
qed

lemma stop_is_identity:
  assumes "timers_ok w" "x < length (executionHeap w)" "isExecuting (state (executionHeap w ! x))"
  shows "stopAutomaticCancellation x w = w"
proof (cases "expirationTimeout (state (executionHeap w ! x)) = - 1")
  case True
  then show ?thesis by (simp add: stopAutomaticCancellation_eq stop_timer_def)
next
  case False
  let ?n = "nat (expirationTimeout (state (executionHeap w ! x)))"
  have n: "?n < length (timers w)"
    using wf_timer_ref [OF timers_ok_wf [OF assms(1)] assms(2) False] by simp
  have "owner (timers w ! ?n) = x"
    using assms(1,2) False by (simp add: timers_ok_def)
  moreover have "disarmed x w"
    using assms by (simp add: timers_ok_def)
  ultimately have "\<not> pending (timers w ! ?n)"
    using n by (simp add: disarmed_def)
  then have "(timers w ! ?n)\<lparr>pending := False\<rparr> = timers w ! ?n"
    by simp
  then show ?thesis
    by (simp add: stopAutomaticCancellation_eq stop_timer_def)
qed

lemma trigger_invokes:
  assumes "wf w" "x < length (executionHeap w)" "\<not> dropped x w"
  shows "prefix (trace w @ [Invoked x as]) (trace (fst (trigger prog d x as w)))"
proof -
  let ?g = "callbackFunction (executionHeap w ! x)"
  obtain w3 out where c: "invoke prog d ?g as (exec_begin x as w) = (w3, out)"
    by (cases "invoke prog d ?g as (exec_begin x as w)")
  have b: "wf (exec_begin x as w)" using assms(1) by (rule wf_exec_begin)
  have "wf (exec_begin x as w) \<and> ext (exec_begin x as w) (exec_begin x as w)"
    using b by simp
  from sync_invoke [OF stable_sync_of [OF stable_ext [of "exec_begin x as w"]] this, of prog d ?g as]
  have "ext (exec_begin x as w) w3" using c by simp
  then have "prefix (trace (exec_begin x as w)) (trace w3)"
    by (simp add: ext_def)
  moreover have "prefix (trace w3) (trace (Execution_afterCallback x w3))"
    using ext_afterCallback [of w3 x] by (simp add: ext_def)
  moreover have "trace (suspend x out w3) = trace w3"
    by (simp add: suspend_def)
  moreover have "trace (exec_begin x as w) = trace w @ [Invoked x as]"
    by (simp add: exec_begin_def)
  ultimately show ?thesis
    using assms(3) c
    by (cases out) (auto simp: trigger_def Execution_execute_alt intro: prefix_order.trans)
qed

lemma flagged_trigger_is_dropped:
  assumes "timers_ok w" and "x < length (executionHeap w)"
    and "onlyOneExecutionAtATime (parameters (executionHeap w ! x))"
    and "isExecuting (state (executionHeap w ! x))"
  shows "trigger prog d x as w = (w, Normal) \<and>
         (\<forall>v as'. wf v \<and> x < length (executionHeap v) \<longrightarrow>
            \<not> isExecuting (state (executionHeap (Execution_afterCallback x v) ! x)) \<and>
            prefix (trace (Execution_afterCallback x v) @ [Invoked x as'])
              (trace (fst (trigger prog d x as' (Execution_afterCallback x v)))))"
proof -
  have "dropped x w" using assms(3,4) by (simp add: dropped_def)
  then have 1: "trigger prog d x as w = (w, Normal)"
    using stop_is_identity [OF assms(1,2,4)] by (simp add: trigger_def Execution_execute_alt)
  have 2: "\<not> isExecuting (state (executionHeap (Execution_afterCallback x v) ! x)) \<and>
      prefix (trace (Execution_afterCallback x v) @ [Invoked x as'])
        (trace (fst (trigger prog d x as' (Execution_afterCallback x v))))"
    if v: "wf v" "x < length (executionHeap v)" for v as'
  proof -
    let ?v' = "Execution_afterCallback x v"
    have f: "\<not> isExecuting (state (executionHeap ?v' ! x))"
      using afterCallback_flags [OF v(2)] by simp
    have "wf ?v'" using v by (rule wf_afterCallback)
    moreover have "x < length (executionHeap ?v')"
      using v(2) grows_afterCallback [of v x] by (simp add: grows_def)
    moreover have "\<not> dropped x ?v'" using f by (simp add: dropped_def)
    ultimately show ?thesis
      using f trigger_invokes by blast
  qed
  show ?thesis using 1 2 by blast
qed

lemma links_wf: "links w \<Longrightarrow> wf w"
  by (simp add: links_def)

lemma links_cong:
  assumes "links w" "wf w'" "eventHeap w' = eventHeap w" "arrayHeap w' = arrayHeap w"
    and "\<And>y. eventInstance (executionHeap w' ! y) = eventInstance (executionHeap w ! y)"
    and "\<And>y. executionId (executionHeap w' ! y) = executionId (executionHeap w ! y)"
  shows "links w'"
  using assms by (simp add: links_def)

lemma links_stop:
  assumes "links w"
  shows "links (stopAutomaticCancellation x w)"
  by (rule links_cong [OF assms wf_stop [OF links_wf [OF assms]]])
     (simp_all add: stopAutomaticCancellation_eq)

lemma links_exec_begin:
  assumes "links w"
  shows "links (exec_begin x as w)"
  by (rule links_cong [OF assms wf_exec_begin [OF links_wf [OF assms]]])
     (simp_all add: exec_begin_def nth_upd)

lemma links_flags:
  assumes "links w"
  shows "links (upd_exec x (\<lambda>X. X\<lparr>state := (state X)\<lparr>isExecuting := False, hasExecuted := True\<rparr>\<rparr>) w)"
  by (rule links_cong [OF assms wf_flags [OF links_wf [OF assms]]])
     (simp_all add: upd_exec_def nth_upd)

lemma links_suspend:
  assumes "links w" "x < length (executionHeap w)"
  shows "links (suspend x out w)"
  by (rule links_cong [OF assms(1) wf_suspend [OF links_wf [OF assms(1)] assms(2)]])
     (simp_all add: suspend_def)

lemma links_fire_begin:
  assumes "links w"
  shows "links (fire_begin t w)"
  by (rule links_cong [OF assms wf_fire_begin [OF links_wf [OF assms]]])
     (simp_all add: fire_begin_def)

lemma links_drop_frame:
  assumes "links w"
  shows "links (drop_frame i w)"
  by (rule links_cong [OF assms wf_drop_frame [OF links_wf [OF assms]]])
     (simp_all add: drop_frame_def)

lemma links_removeEvent:
  assumes "links w"
  shows "links (EventEmitter_removeEvent name w)"
  by (rule links_cong [OF assms wf_removeEvent [OF links_wf [OF assms]]])
     (simp_all add: EventEmitter_removeEvent_def)

lemma links_removeAllEvents:
  assumes "links w"
  shows "links (EventEmitter_removeAllEvents w)"
  by (rule links_cong [OF assms wf_removeAllEvents [OF links_wf [OF assms]]])
     (simp_all add: EventEmitter_removeAllEvents_def)

lemma links_events: "links w \<Longrightarrow> wf (w\<lparr>events := es\<rparr>) \<Longrightarrow> links (w\<lparr>events := es\<rparr>)"
  by (erule links_cong) simp_all

lemma links_timers: "links w \<Longrightarrow> wf (w\<lparr>timers := ts\<rparr>) \<Longrightarrow> links (w\<lparr>timers := ts\<rparr>)"
  by (erule links_cong) simp_all

lemma links_Event_removeExecution:
  assumes "links w" "e < length (eventHeap w)"
  shows "links (Event_removeExecution e i w)"
proof -
  let ?w' = "Event_removeExecution e i w"
  let ?keep = "filter (\<lambda>x. executionId (executionHeap w ! x) \<noteq> i) (arrayHeap w ! executions (eventHeap w ! e))"
  have wf: "wf w" using assms(1) by (rule links_wf)
  have v: "executions (eventHeap w ! e') < length (arrayHeap w)" if "e' < length (eventHeap w)" for e'
    using wf that by (simp add: wf_def)
  have ar: "arrayHeap ?w' ! executions (eventHeap ?w' ! e') =
              (if e' = e then ?keep else arrayHeap w ! executions (eventHeap w ! e'))"
    if "e' < length (eventHeap w)" for e'
    using that v [OF that] assms(2) by (simp add: Event_removeExecution_eq nth_upd nth_append)
  have ex: "executions (eventHeap ?w' ! e') =
              (if e' = e then length (arrayHeap w) else executions (eventHeap w ! e'))"
    if "e' < length (eventHeap w)" for e'
    using that assms(2) by (simp add: Event_removeExecution_eq nth_upd)
  have cn: "executionCounter (eventHeap ?w' ! e') = executionCounter (eventHeap w ! e')" for e'
    by (simp add: Event_removeExecution_eq nth_upd)
  have xs: "executionHeap ?w' = executionHeap w" and ln: "length (eventHeap ?w') = length (eventHeap w)"
    by (simp_all add: Event_removeExecution_eq)
  have h: "\<forall>e1<length (eventHeap ?w'). \<forall>e2<length (eventHeap ?w').
        executions (eventHeap ?w' ! e1) = executions (eventHeap ?w' ! e2) \<longrightarrow> e1 = e2"
  proof (intro allI impI)
    fix e1 e2
    assume a: "e1 < length (eventHeap ?w')" "e2 < length (eventHeap ?w')"
      "executions (eventHeap ?w' ! e1) = executions (eventHeap ?w' ! e2)"
    then have b: "e1 < length (eventHeap w)" "e2 < length (eventHeap w)" by (simp_all add: ln)
    show "e1 = e2"
      using a(3) v [OF b(1)] v [OF b(2)] assms(1) b
      by (auto simp: ex [OF b(1)] ex [OF b(2)] links_def split: if_splits)
  qed
  have i: "\<forall>e1<length (eventHeap ?w'). \<forall>x\<in>set (arrayHeap ?w' ! executions (eventHeap ?w' ! e1)).
        eventInstance (executionHeap ?w' ! x) = e1 \<and>
        executionId (executionHeap ?w' ! x) < executionCounter (eventHeap ?w' ! e1)"
    using assms by (auto simp: ln ar xs cn links_def)
  have n: "\<forall>e1<length (eventHeap ?w').
        sorted_wrt (\<lambda>x y. executionId (executionHeap ?w' ! x) < executionId (executionHeap ?w' ! y))
          (arrayHeap ?w' ! executions (eventHeap ?w' ! e1))"
    using assms by (auto simp: ln ar xs links_def intro: sorted_wrt_filter)
  show ?thesis
    unfolding links_def using wf_Event_removeExecution [OF wf assms(2), of i] h i n by blast
qed

lemma links_cancel: "links w \<Longrightarrow> x < length (executionHeap w) \<Longrightarrow> links (Execution_cancel x w)"
proof -
  assume a: "links w" "x < length (executionHeap w)"
  then have e: "eventInstance (executionHeap w ! x) < length (eventHeap w)"
    using links_wf [OF a(1)] by (simp add: wf_def)
  have "links (stopAutomaticCancellation x w)" using a(1) by (rule links_stop)
  then have "links (Event_removeExecution (eventInstance (executionHeap w ! x))
      (executionId (executionHeap w ! x)) (stopAutomaticCancellation x w))"
    using e by (intro links_Event_removeExecution) (simp_all add: stopAutomaticCancellation_eq)
  then show ?thesis
    by (simp add: Execution_cancel_def Let_def stopAutomaticCancellation_eq)
qed

lemma links_afterCallback:
  "links w \<Longrightarrow> x < length (executionHeap w) \<Longrightarrow> links (Execution_afterCallback x w)"
  unfolding Execution_afterCallback_def Let_def
  using links_flags [of w x]
    links_cancel [of "upd_exec x (\<lambda>X. X\<lparr>state := (state X)\<lparr>isExecuting := False, hasExecuted := True\<rparr>\<rparr>) w" x]
  by (auto simp: upd_exec_def)

lemma links_removeExecution: "links w \<Longrightarrow> links (EventEmitter_removeExecution name i w)"
proof (cases "find_event name w")
  case None
  then show "links w \<Longrightarrow> ?thesis" by (simp add: EventEmitter_removeExecution_def)
next
  case (Some e)
  assume w: "links w"
  then have "links (Event_removeExecution e i w)"
    using Some find_event_valid links_Event_removeExecution links_wf by blast
  moreover have "wf (EventEmitter_removeExecution name i w)"
    using w links_wf wf_removeExecution by blast
  ultimately show ?thesis
    using Some
    by (auto simp: EventEmitter_removeExecution_def Let_def intro: links_events)
qed

lemma links_register_event:
  assumes "links w"
  shows "links (snd (register_event name w))"
proof (cases "find_event name w")
  case (Some e)
  then show ?thesis using assms by (simp add: register_event_def)
next
  case None
  let ?w' = "snd (register_event name w)"
  have wf: "wf w" using assms by (rule links_wf)
  have wf': "wf ?w'" using wf_register_event [OF wf, of name] by simp
  have v: "\<forall>e'<length (eventHeap w). executions (eventHeap w ! e') < length (arrayHeap w)"
    using wf by (simp add: wf_def)
  have ev: "eventHeap ?w' = eventHeap w @
      [\<lparr>eventName = name, eventId = eventIds w, executions = length (arrayHeap w), executionCounter = 0\<rparr>]"
    and ar: "arrayHeap ?w' = arrayHeap w @ [[]]" and xs: "executionHeap ?w' = executionHeap w"
    using None by (simp_all add: register_event_def)
  have h: "\<forall>e1<length (eventHeap ?w'). \<forall>e2<length (eventHeap ?w').
        executions (eventHeap ?w' ! e1) = executions (eventHeap ?w' ! e2) \<longrightarrow> e1 = e2"
    using assms v by (fastforce simp: ev nth_append links_def less_Suc_eq)
  have i: "\<forall>e1<length (eventHeap ?w'). \<forall>x\<in>set (arrayHeap ?w' ! executions (eventHeap ?w' ! e1)).
        eventInstance (executionHeap ?w' ! x) = e1 \<and>
        executionId (executionHeap ?w' ! x) < executionCounter (eventHeap ?w' ! e1)"
    using assms v by (auto simp: ev ar xs nth_append links_def less_Suc_eq)
  have n: "\<forall>e1<length (eventHeap ?w').
        sorted_wrt (\<lambda>x y. executionId (executionHeap ?w' ! x) < executionId (executionHeap ?w' ! y))
          (arrayHeap ?w' ! executions (eventHeap ?w' ! e1))"
    using assms v by (auto simp: ev ar xs nth_append links_def less_Suc_eq)
  show ?thesis
    unfolding links_def using wf' h i n by blast
qed

lemma links_Event_addExecution:
  assumes "links w" "e < length (eventHeap w)"
  shows "links (snd (Event_addExecution e cb p w))"
proof -
  let ?w' = "snd (Event_addExecution e cb p w)"
  let ?n = "length (executionHeap w)"
  let ?c = "executionCounter (eventHeap w ! e)"
  have wf: "wf w" using assms(1) by (rule links_wf)
  have wf': "wf ?w'" using wf assms(2) by (rule wf_Event_addExecution)
  have v: "executions (eventHeap w ! e') < length (arrayHeap w)" if "e' < length (eventHeap w)" for e'
    using wf that by (simp add: wf_def)
  have inj: "e' = e" if "e' < length (eventHeap w)" "executions (eventHeap w ! e') = executions (eventHeap w ! e)" for e'
    using assms that by (simp add: links_def)
  have val: "x < ?n" if "e' < length (eventHeap w)" "x \<in> set (arrayHeap w ! executions (eventHeap w ! e'))" for e' x
    using wf v [OF that(1)] that(2) by (auto simp: wf_def)
  have ln: "length (eventHeap ?w') = length (eventHeap w)"
    by (simp add: Event_addExecution_eq)
  have ex: "executions (eventHeap ?w' ! e') = executions (eventHeap w ! e')" for e'
    by (simp add: Event_addExecution_eq nth_upd)
  have cn: "executionCounter (eventHeap ?w' ! e') =
      (if e' = e then ?c + 1 else executionCounter (eventHeap w ! e'))" if "e' < length (eventHeap w)" for e'
    using that by (simp add: Event_addExecution_eq nth_upd)
  have ar: "arrayHeap ?w' ! executions (eventHeap w ! e') =
      (if e' = e then arrayHeap w ! executions (eventHeap w ! e) @ [?n]
       else arrayHeap w ! executions (eventHeap w ! e'))" if "e' < length (eventHeap w)" for e'
    using that v [OF that] v [OF assms(2)] inj [OF that]
    by (auto simp: Event_addExecution_eq nth_upd)
  have old: "eventInstance (executionHeap ?w' ! x) = eventInstance (executionHeap w ! x) \<and>
      executionId (executionHeap ?w' ! x) = executionId (executionHeap w ! x)" if "x < ?n" for x
    using that by (simp add: Event_addExecution_eq nth_append)
  have new: "eventInstance (executionHeap ?w' ! ?n) = e \<and> executionId (executionHeap ?w' ! ?n) = ?c"
    by (simp add: Event_addExecution_eq new_Execution_def)
  have i0: "eventInstance (executionHeap w ! x) = e' \<and>
      executionId (executionHeap w ! x) < executionCounter (eventHeap w ! e')"
    if "e' < length (eventHeap w)" "x \<in> set (arrayHeap w ! executions (eventHeap w ! e'))" for e' x
    using assms(1) that by (simp add: links_def)
  have s0: "sorted_wrt (\<lambda>x y. executionId (executionHeap w ! x) < executionId (executionHeap w ! y))
      (arrayHeap w ! executions (eventHeap w ! e'))" if "e' < length (eventHeap w)" for e'
    using assms(1) that by (simp add: links_def)
  have h: "\<forall>e1<length (eventHeap ?w'). \<forall>e2<length (eventHeap ?w').
        executions (eventHeap ?w' ! e1) = executions (eventHeap ?w' ! e2) \<longrightarrow> e1 = e2"
    using assms(1) by (simp add: ln ex links_def)
  have i: "\<forall>e1<length (eventHeap ?w'). \<forall>x\<in>set (arrayHeap ?w' ! executions (eventHeap ?w' ! e1)).
        eventInstance (executionHeap ?w' ! x) = e1 \<and>
        executionId (executionHeap ?w' ! x) < executionCounter (eventHeap ?w' ! e1)"
  proof (intro allI impI ballI)
    fix e1 x
    assume e1: "e1 < length (eventHeap ?w')"
      and x: "x \<in> set (arrayHeap ?w' ! executions (eventHeap ?w' ! e1))"
    have e1': "e1 < length (eventHeap w)" using e1 by (simp add: ln)
    consider "x = ?n" "e1 = e" | "x \<in> set (arrayHeap w ! executions (eventHeap w ! e1))"
      using x by (auto simp: ex ar [OF e1'] split: if_splits)
    then show "eventInstance (executionHeap ?w' ! x) = e1 \<and>
        executionId (executionHeap ?w' ! x) < executionCounter (eventHeap ?w' ! e1)"
    proof cases
      case 1
      then show ?thesis using new assms(2) by (simp add: cn)
    next
      case 2
      then show ?thesis
        using i0 [OF e1' 2] old [OF val [OF e1' 2]] by (auto simp: cn [OF e1'])
    qed
  qed
  have n: "\<forall>e1<length (eventHeap ?w').
        sorted_wrt (\<lambda>x y. executionId (executionHeap ?w' ! x) < executionId (executionHeap ?w' ! y))
          (arrayHeap ?w' ! executions (eventHeap ?w' ! e1))"
  proof (intro allI impI)
    fix e1 assume e1: "e1 < length (eventHeap ?w')"
    then have e1': "e1 < length (eventHeap w)" by (simp add: ln)
    let ?L = "arrayHeap w ! executions (eventHeap w ! e1)"
    have sL: "sorted_wrt (\<lambda>x y. executionId (executionHeap ?w' ! x) < executionId (executionHeap ?w' ! y)) ?L"
      using s0 [OF e1'] old val [OF e1']
      by (auto elim!: sorted_wrt_mono_rel [rotated])
    show "sorted_wrt (\<lambda>x y. executionId (executionHeap ?w' ! x) < executionId (executionHeap ?w' ! y))
          (arrayHeap ?w' ! executions (eventHeap ?w' ! e1))"
    proof (cases "e1 = e")
      case False
      then show ?thesis using sL by (simp add: ex ar [OF e1'])
    next
      case True
      have "\<forall>x\<in>set ?L. executionId (executionHeap ?w' ! x) < executionId (executionHeap ?w' ! ?n)"
        using i0 [OF e1'] old val [OF e1'] new True by auto
      then show ?thesis
        using sL True by (simp add: ex ar [OF assms(2)] sorted_wrt_append)
    qed
  qed
  show ?thesis
    unfolding links_def using wf' h i n by blast
qed

lemma links_addEvent: "links w \<Longrightarrow> links (snd (EventEmitter_addEvent name cb p w))"
  using links_register_event [of w name] wf_register_event [of w name] links_wf [of w]
  by (auto simp: EventEmitter_addEvent_eq split: prod.splits intro: links_Event_addExecution)

lemma stable_links: "stable links"
  unfolding stable_def stable_sync_def
  by (intro conjI allI impI links_wf links_stop links_exec_begin links_afterCallback links_suspend
        links_addEvent links_removeEvent links_removeExecution links_removeAllEvents links_fire_begin
        links_cancel links_drop_frame)

lemma links_new: "links (EventEmitter_new name)"
  by (simp add: links_def wf_new) (simp add: EventEmitter_new_def)

lemma links_run: "links (run prog d ss (EventEmitter_new name))"
  by (rule stable_run [OF stable_links links_new])

lemma on_wf_of: "stable_sync_on T I \<Longrightarrow> I w \<Longrightarrow> wf w"
  by (simp add: stable_sync_on_def)

lemma on_Execution_execute:
  assumes st: "stable_sync_on T I"
    and call_ok: "\<And>g as w. I w \<Longrightarrow> I (fst (call g as w))"
    and call_grows: "\<And>g as w. grows w (fst (call g as w))"
    and I: "I w" and x: "x < length (executionHeap w)" and T: "T x"
  shows "I (fst (Execution_execute call x as w))"
proof (cases "dropped x w")
  case True
  then show ?thesis using st I x by (simp add: Execution_execute_alt stable_sync_on_def)
next
  case False
  obtain w3 out where c: "call (callbackFunction (executionHeap w ! x)) as (exec_begin x as w) = (w3, out)"
    by (cases "call (callbackFunction (executionHeap w ! x)) as (exec_begin x as w)")
  have b: "I (exec_begin x as w)"
    using st I x T False by (simp add: stable_sync_on_def)
  have I3: "I w3"
    using call_ok [OF b, of "callbackFunction (executionHeap w ! x)" as] c by simp
  have "grows (exec_begin x as w) w3"
    using call_grows [of "exec_begin x as w" "callbackFunction (executionHeap w ! x)" as] c by simp
  then have "grows w w3"
    using grows_exec_begin grows_trans by blast
  then have x3: "x < length (executionHeap w3)"
    using x by (simp add: grows_def)
  have "I (Execution_afterCallback x w3)" "I (suspend x out w3)"
    using st I3 x3 by (simp_all add: stable_sync_on_def)
  then show ?thesis
    using False c by (cases out) (simp_all add: Execution_execute_alt)
qed

lemma on_forEach_from:
  assumes st: "stable_sync_on T I"
    and f_ok: "\<And>x as w. I w \<Longrightarrow> x < length (executionHeap w) \<Longrightarrow> T x \<Longrightarrow> I (fst (f x as w))"
    and f_ext: "\<And>x as w. wf w \<Longrightarrow> x < length (executionHeap w) \<Longrightarrow> ext w (fst (f x as w))"
  shows "I w \<Longrightarrow> a < length (arrayHeap w) \<Longrightarrow> k + n \<le> length (arrayHeap w ! a) \<Longrightarrow>
         \<forall>i<k + n. T (arrayHeap w ! a ! i) \<Longrightarrow> I (fst (forEach_from f a as k n w))"
proof (induction n arbitrary: k w)
  case 0
  then show ?case by simp
next
  case (Suc n)
  let ?L = "arrayHeap w ! a"
  let ?x = "?L ! k"
  have k: "k < length ?L" using Suc.prems(3) by simp
  obtain w1 c where fx: "f ?x as w = (w1, c)" by (cases "f ?x as w")
  have wf: "wf w" using st Suc.prems(1) by (rule on_wf_of)
  then have xv: "?x < length (executionHeap w)"
    using Suc.prems(2) k by (simp add: wf_def)
  have Tx: "T ?x" using Suc.prems(4) by simp
  have I1: "I w1" using f_ok [OF Suc.prems(1) xv Tx, of as] fx by simp
  have e1: "ext w w1" using f_ext [OF wf xv, of as] fx by simp
  then have a1: "a < length (arrayHeap w1)" and p: "prefix ?L (arrayHeap w1 ! a)"
    using Suc.prems(2) by (auto simp: ext_def)
  have l1: "Suc k + n \<le> length (arrayHeap w1 ! a)"
    using Suc.prems(3) prefix_length_le [OF p] by simp
  have "arrayHeap w1 ! a ! i = ?L ! i" if "i < Suc k + n" for i
    using p that Suc.prems(3) by (auto simp: prefix_def nth_append)
  then have T1: "\<forall>i<Suc k + n. T (arrayHeap w1 ! a ! i)"
    using Suc.prems(4) by simp
  have "I (fst (forEach_from f a as (Suc k) n w1))"
    by (rule Suc.IH [OF I1 a1 l1 T1])
  then show ?case
    using k fx I1 by (cases c) (auto split: prod.splits)
qed

lemma on_emitEvent:
  assumes st: "stable_sync_on T I"
    and f_ok: "\<And>x as w. I w \<Longrightarrow> x < length (executionHeap w) \<Longrightarrow> T x \<Longrightarrow> I (fst (f x as w))"
    and f_ext: "\<And>x as w. wf w \<Longrightarrow> x < length (executionHeap w) \<Longrightarrow> ext w (fst (f x as w))"
    and I: "I w"
  shows "I (fst (EventEmitter_emitEvent f name as w))"
proof (cases "find_event name w")
  case None
  then show ?thesis using I by (simp add: EventEmitter_emitEvent_def)
next
  case (Some e)
  let ?a = "executions (eventHeap w ! e)"
  have "wf w" using st I by (rule on_wf_of)
  then have e: "e < length (eventHeap w)" "?a < length (arrayHeap w)"
    using Some find_event_valid by blast+
  have "\<forall>y\<in>set (arrayHeap w ! ?a). T y"
    using st I e(1) by (simp add: stable_sync_on_def)
  then have "\<forall>i<0 + length (arrayHeap w ! ?a). T (arrayHeap w ! ?a ! i)"
    by simp
  from on_forEach_from [of T I f, OF st f_ok f_ext I e(2) _ this, of as]
  show ?thesis
    using Some
    by (auto simp: EventEmitter_emitEvent_def Event_execute_def Event_fanout_def Array_forEach_def
          split: prod.splits)
qed

lemma on_do_action:
  assumes st: "stable_sync_on T I"
    and f_ok: "\<And>x as w. I w \<Longrightarrow> x < length (executionHeap w) \<Longrightarrow> T x \<Longrightarrow> I (fst (f x as w))"
    and f_ext: "\<And>x as w. wf w \<Longrightarrow> x < length (executionHeap w) \<Longrightarrow> ext w (fst (f x as w))"
    and I: "I w"
  shows "I (fst (do_action f a w))"
proof (cases a)
  case (EmitEvent name as)
  then show ?thesis
    using on_emitEvent [of T I f, OF st f_ok f_ext I] by simp
qed (use st I in \<open>simp_all add: stable_sync_on_def\<close>)

lemma on_run_actions:
  assumes st: "stable_sync_on T I"
    and f_ok: "\<And>x as w. I w \<Longrightarrow> x < length (executionHeap w) \<Longrightarrow> T x \<Longrightarrow> I (fst (f x as w))"
    and f_ext: "\<And>x as w. wf w \<Longrightarrow> x < length (executionHeap w) \<Longrightarrow> ext w (fst (f x as w))"
  shows "I w \<Longrightarrow> I (fst (run_actions f acts w))"
proof (induction acts arbitrary: w)
  case Nil
  then show ?case by simp
next
  case (Cons a acts)
  obtain w1 c where d: "do_action f a w = (w1, c)" by (cases "do_action f a w")
  have "I w1"
    using on_do_action [of T I f, OF st f_ok f_ext Cons.prems, of a] d by simp
  then show ?case
    using d Cons.IH [of w1] by (cases c) auto
qed

lemma ext_Execution_execute_invoke:
  "wf w \<Longrightarrow> x < length (executionHeap w) \<Longrightarrow> ext w (fst (Execution_execute (invoke prog d) x as w))"
  using ext_trigger [of w x prog d as] by (simp add: trigger_def)

lemma on_invoke:
  assumes st: "stable_sync_on T I"
  shows "I w \<Longrightarrow> I (fst (invoke prog d g as w))"
proof (induction d arbitrary: g as w)
  case 0
  then show ?case by simp
next
  case (Suc d)
  have ok: "\<And>x as w. I w \<Longrightarrow> x < length (executionHeap w) \<Longrightarrow> T x \<Longrightarrow>
              I (fst (Execution_execute (invoke prog d) x as w))"
    by (rule on_Execution_execute [OF st Suc.IH grows_invoke])
  from on_run_actions [of T I "Execution_execute (invoke prog d)", OF st ok
      ext_Execution_execute_invoke Suc.prems]
  show ?case
    by (auto split: prod.splits completion.splits) (metis fst_conv)+
qed

lemma on_trigger:
  assumes "stable_sync_on T I" "I w" "x < length (executionHeap w)" "T x"
  shows "I (fst (trigger prog d x as w))"
  unfolding trigger_def
  by (rule on_Execution_execute [OF assms(1) on_invoke [OF assms(1)] grows_invoke assms(2-4)])

lemma on_do_step:
  assumes st: "stable_on T I" and I: "I w"
  shows "I (fst (do_step prog d s w))"
proof (cases s)
  case (Call a)
  have ss: "stable_sync_on T I" using st by (simp add: stable_on_def)
  show ?thesis
    unfolding Call do_step.simps
    by (rule on_do_action [OF ss on_trigger [OF ss] ext_trigger I])
next
  case (Fire t)
  have ss: "stable_sync_on T I" using st by (simp add: stable_on_def)
  show ?thesis
  proof (cases "t < length (timers w) \<and> pending (timers w ! t)")
    case False
    then show ?thesis using I Fire by auto
  next
    case True
    let ?x = "owner (timers w ! t)"
    let ?g = "callback (expirationCallback (parameters (executionHeap w ! ?x)))"
    obtain w1 out where c: "invoke prog d ?g [] (fire_begin t w) = (w1, out)"
      by (cases "invoke prog d ?g [] (fire_begin t w)")
    have "wf w" using ss I by (rule on_wf_of)
    then have xv: "?x < length (executionHeap w)"
      using True by (simp add: wf_def)
    have b: "I (fire_begin t w)"
      using st I True by (simp add: stable_on_def)
    have I1: "I w1"
      using on_invoke [OF ss b, of prog d ?g "[]"] c by simp
    have "grows (fire_begin t w) w1"
      using grows_invoke [of "fire_begin t w" prog d ?g "[]"] c by simp
    then have "grows w w1"
      using grows_fire_begin grows_trans by blast
    then have "?x < length (executionHeap w1)"
      using xv by (simp add: grows_def)
    then have "I (Execution_cancel ?x w1)"
      using st I1 by (simp add: stable_on_def)
    then show ?thesis
      using True Fire c I1 by (cases out) (simp_all add: timeout_closure_alt)
  qed
next
  case (Resume i)
  have ss: "stable_sync_on T I" using st by (simp add: stable_on_def)
  show ?thesis
  proof (cases "i < length (suspended w)")
    case False
    then show ?thesis using I Resume by simp
  next
    case True
    have "wf w" using ss I by (rule on_wf_of)
    then have "fst (suspended w ! i) < length (executionHeap w)"
      using True by (simp add: wf_def)
    then have "fst (suspended w ! i) < length (executionHeap (drop_frame i w))"
      by (simp add: drop_frame_def)
    moreover have "I (drop_frame i w)"
      using st I True by (simp add: stable_on_def)
    ultimately have "I (Execution_afterCallback (fst (suspended w ! i)) (drop_frame i w))"
      using ss by (simp add: stable_sync_on_def)
    then show ?thesis
      using True Resume by (simp add: drop_frame_def)
  qed
qed

lemma on_run:
  assumes st: "stable_on T I"
  shows "I w \<Longrightarrow> I (run prog d ss w)"
  unfolding run_def
  by (induction ss arbitrary: w) (simp_all add: on_do_step [OF st])

lemma invocations_append [simp]: "invocations x (tr @ tr') = invocations x tr @ invocations x tr'"
  by (simp add: invocations_def)

lemma invocations_Invoked [simp]: "invocations x [Invoked y as] = (if y = x then [Invoked y as] else [])"
  by (simp add: invocations_def)

lemma invocations_Expired [simp]: "invocations x [Expired y b] = []"
  by (simp add: invocations_def)

lemma gone_cong:
  assumes "gone x tr w" "wf w'" "eventHeap w' = eventHeap w" "arrayHeap w' = arrayHeap w"
    "length (executionHeap w') = length (executionHeap w)"
    "invocations x (trace w') = invocations x (trace w)"
  shows "gone x tr w'"
  using assms by (simp add: gone_def unlisted_def)

lemma gone_wf: "gone x tr w \<Longrightarrow> wf w"
  by (simp add: gone_def)

lemma gone_stop:
  assumes "gone x tr w"
  shows "gone x tr (stopAutomaticCancellation y w)"
  by (rule gone_cong [OF assms wf_stop [OF gone_wf [OF assms]]])
     (simp_all add: stopAutomaticCancellation_eq)

lemma gone_exec_begin:
  assumes "gone x tr w" "y \<noteq> x"
  shows "gone x tr (exec_begin y as w)"
  by (rule gone_cong [OF assms(1) wf_exec_begin [OF gone_wf [OF assms(1)]]])
     (use assms(2) in \<open>simp_all add: exec_begin_def\<close>)

lemma gone_flags:
  assumes "gone x tr w"
  shows "gone x tr (upd_exec y (\<lambda>X. X\<lparr>state := (state X)\<lparr>isExecuting := False, hasExecuted := True\<rparr>\<rparr>) w)"
  by (rule gone_cong [OF assms wf_flags [OF gone_wf [OF assms]]])
     (simp_all add: upd_exec_def)

lemma gone_suspend:
  assumes "gone x tr w" "y < length (executionHeap w)"
  shows "gone x tr (suspend y out w)"
  by (rule gone_cong [OF assms(1) wf_suspend [OF gone_wf [OF assms(1)] assms(2)]])
     (simp_all add: suspend_def)

lemma gone_fire_begin:
  assumes "gone x tr w"
  shows "gone x tr (fire_begin t w)"
  by (rule gone_cong [OF assms wf_fire_begin [OF gone_wf [OF assms]]])
     (simp_all add: fire_begin_def)

lemma gone_drop_frame:
  assumes "gone x tr w"
  shows "gone x tr (drop_frame i w)"
  by (rule gone_cong [OF assms wf_drop_frame [OF gone_wf [OF assms]]])
     (simp_all add: drop_frame_def)

lemma gone_removeEvent:
  assumes "gone x tr w"
  shows "gone x tr (EventEmitter_removeEvent name w)"
  by (rule gone_cong [OF assms wf_removeEvent [OF gone_wf [OF assms]]])
     (simp_all add: EventEmitter_removeEvent_def)

lemma gone_removeAllEvents:
  assumes "gone x tr w"
  shows "gone x tr (EventEmitter_removeAllEvents w)"
  by (rule gone_cong [OF assms wf_removeAllEvents [OF gone_wf [OF assms]]])
     (simp_all add: EventEmitter_removeAllEvents_def)

lemma gone_events: "gone x tr w \<Longrightarrow> wf (w\<lparr>events := es\<rparr>) \<Longrightarrow> gone x tr (w\<lparr>events := es\<rparr>)"
  by (erule gone_cong) simp_all

lemma unlisted_Event_removeExecution:
  assumes "wf w" "unlisted x w" "e < length (eventHeap w)"
  shows "unlisted x (Event_removeExecution e i w)"
proof -
  have v: "\<forall>e'<length (eventHeap w). executions (eventHeap w ! e') < length (arrayHeap w)"
    using assms(1) by (simp add: wf_def)
  show ?thesis
    using assms(2,3) v
    by (auto simp: unlisted_def Event_removeExecution_eq nth_upd nth_append)
qed

lemma gone_Event_removeExecution:
  assumes "gone x tr w" "e < length (eventHeap w)"
  shows "gone x tr (Event_removeExecution e i w)"
  unfolding gone_def
  using assms wf_Event_removeExecution [of w e i] unlisted_Event_removeExecution [of w x e i]
  by (simp add: gone_def) (simp add: Event_removeExecution_eq)

lemma gone_cancel:
  assumes "gone x tr w" "y < length (executionHeap w)"
  shows "gone x tr (Execution_cancel y w)"
proof -
  have e: "eventInstance (executionHeap w ! y) < length (eventHeap w)"
    using assms by (simp add: gone_def wf_def)
  have "gone x tr (stopAutomaticCancellation y w)" using assms(1) by (rule gone_stop)
  then have "gone x tr (Event_removeExecution (eventInstance (executionHeap w ! y))
      (executionId (executionHeap w ! y)) (stopAutomaticCancellation y w))"
    using e by (intro gone_Event_removeExecution) (simp_all add: stopAutomaticCancellation_eq)
  then show ?thesis
    by (simp add: Execution_cancel_def Let_def stopAutomaticCancellation_eq)
qed

lemma gone_afterCallback:
  "gone x tr w \<Longrightarrow> y < length (executionHeap w) \<Longrightarrow> gone x tr (Execution_afterCallback y w)"
  unfolding Execution_afterCallback_def Let_def
  using gone_flags [of x tr w y]
    gone_cancel [of x tr "upd_exec y (\<lambda>X. X\<lparr>state := (state X)\<lparr>isExecuting := False, hasExecuted := True\<rparr>\<rparr>) w" y]
  by (auto simp: upd_exec_def)

lemma gone_removeExecution: "gone x tr w \<Longrightarrow> gone x tr (EventEmitter_removeExecution name i w)"
proof (cases "find_event name w")
  case None
  then show "gone x tr w \<Longrightarrow> ?thesis" by (simp add: EventEmitter_removeExecution_def)
next
  case (Some e)
  assume w: "gone x tr w"
  then have "gone x tr (Event_removeExecution e i w)"
    using Some find_event_valid gone_Event_removeExecution gone_wf by blast
  moreover have "wf (EventEmitter_removeExecution name i w)"
    using w gone_wf wf_removeExecution by blast
  ultimately show ?thesis
    using Some
    by (auto simp: EventEmitter_removeExecution_def Let_def intro: gone_events)
qed

lemma gone_register_event:
  assumes "gone x tr w"
  shows "gone x tr (snd (register_event name w))"
proof -
  have v: "\<forall>e'<length (eventHeap w). executions (eventHeap w ! e') < length (arrayHeap w)"
    using assms by (simp add: gone_def wf_def)
  have "unlisted x (snd (register_event name w))"
    using assms v
    by (auto simp: gone_def unlisted_def register_event_def nth_append less_Suc_eq split: option.splits)
  then show ?thesis
    using assms wf_register_event [of w name]
    by (auto simp: gone_def register_event_def split: option.splits)
qed

lemma gone_Event_addExecution:
  assumes "gone x tr w" "e < length (eventHeap w)"
  shows "gone x tr (snd (Event_addExecution e cb p w))"
proof -
  have "unlisted x (snd (Event_addExecution e cb p w))"
    using assms
    by (auto simp: gone_def unlisted_def Event_addExecution_eq nth_upd)
  then show ?thesis
    using assms wf_Event_addExecution [of w e cb p]
    by (simp add: gone_def) (simp add: Event_addExecution_eq)
qed

lemma gone_addEvent: "gone x tr w \<Longrightarrow> gone x tr (snd (EventEmitter_addEvent name cb p w))"
  using gone_register_event [of x tr w name] wf_register_event [of w name] gone_wf [of x tr w]
  by (auto simp: EventEmitter_addEvent_eq split: prod.splits intro: gone_Event_addExecution)

lemma stable_gone: "stable_on (\<lambda>y. y \<noteq> x) (gone x tr)"
  unfolding stable_on_def stable_sync_on_def
  apply (intro conjI allI impI gone_wf gone_stop gone_exec_begin gone_afterCallback gone_suspend
      gone_addEvent gone_removeEvent gone_removeExecution gone_removeAllEvents gone_fire_begin
      gone_cancel gone_drop_frame)
                      apply (auto simp: gone_def unlisted_def)
  done

lemma cancel_unlists:
  assumes "links w" "x < length (executionHeap w)"
  shows "unlisted x (Execution_cancel x w)"
proof -
  let ?e = "eventInstance (executionHeap w ! x)"
  have wf: "wf w" using assms(1) by (rule links_wf)
  have e: "?e < length (eventHeap w)"
    using wf assms(2) by (simp add: wf_def)
  have v: "\<forall>e'<length (eventHeap w). executions (eventHeap w ! e') < length (arrayHeap w)"
    using wf by (simp add: wf_def)
  have i: "\<forall>e'<length (eventHeap w). x \<in> set (arrayHeap w ! executions (eventHeap w ! e')) \<longrightarrow> e' = ?e"
    using assms(1) by (auto simp: links_def)
  show ?thesis
    using e v i
    by (auto simp: unlisted_def Execution_cancel_eq nth_upd nth_append)
qed

lemma afterCallback_gone:
  assumes "links w" "x < length (executionHeap w)" "removeAfterExecute (parameters (executionHeap w ! x))"
  shows "gone x (invocations x (trace w)) (Execution_afterCallback x w)"
proof -
  let ?w1 = "upd_exec x (\<lambda>X. X\<lparr>state := (state X)\<lparr>isExecuting := False, hasExecuted := True\<rparr>\<rparr>) w"
  have l1: "links ?w1" using assms(1) by (rule links_flags)
  have x1: "x < length (executionHeap ?w1)" using assms(2) by (simp add: upd_exec_def)
  have r: "Execution_afterCallback x w = Execution_cancel x ?w1"
    using assms(2,3) by (simp add: Execution_afterCallback_def Let_def upd_exec_def)
  have "unlisted x (Execution_cancel x ?w1)" using l1 x1 by (rule cancel_unlists)
  moreover have "wf (Execution_cancel x ?w1)"
    using links_wf [OF l1] x1 by (rule wf_cancel)
  moreover have "trace (Execution_cancel x ?w1) = trace w"
    "length (executionHeap (Execution_cancel x ?w1)) = length (executionHeap w)"
    by (simp_all add: Execution_cancel_eq upd_exec_def)
  ultimately show ?thesis
    using assms(2) by (simp add: r gone_def)
qed

lemma addEvent_attaches:
  assumes "wf w"
  shows "attached (length (executionHeap w)) (snd (EventEmitter_addEvent name cb p w)) \<and>
         parameters (executionHeap (snd (EventEmitter_addEvent name cb p w)) ! length (executionHeap w)) =
           new_parameters p"
proof -
  obtain e w0 where r: "register_event name w = (e, w0)"
    by (cases "register_event name w")
  have w0: "wf w0" "e < length (eventHeap w0)"
    using wf_register_event [OF assms, of name] r by simp_all
  have xs: "executionHeap w0 = executionHeap w"
    using r by (auto simp: register_event_def split: option.splits)
  have "executions (eventHeap w0 ! e) < length (arrayHeap w0)"
    using w0 by (simp add: wf_def)
  then show ?thesis
    using r w0(2)
    by (simp add: EventEmitter_addEvent_eq attached_def Event_addExecution_eq xs nth_upd
          new_Execution_def)
qed

lemma gone_forever:
  assumes "gone x tr v"
  shows "invocations x (trace (run prog d ss v)) = tr \<and> unlisted x (run prog d ss v)"
  using on_run [OF stable_gone assms, of prog d ss] by (simp add: gone_def)

lemma unlisted_not_attached:
  "wf w \<Longrightarrow> x < length (executionHeap w) \<Longrightarrow> unlisted x w \<Longrightarrow> \<not> attached x w"
  by (simp add: unlisted_def attached_def wf_def)

text \<open>
  What \<open>execute\<close> does guarantee for a subscription made with \<open>removeAfterExecute\<close>. It is
  in the list of its \<open>Event\<close> when \<open>addEvent\<close> returns. When \<open>execute\<close> reaches the
  statements after its \<open>try\<close>, by the resumption of the suspended call (the callback
  returned) or at once (the callback threw), the \<open>Execution\<close> is in no list of any
  \<open>Event\<close> any more, and it stays so: over every later sequence of calls to the emitter,
  timer firings and resumptions made from there, emissions of its event name included,
  its callback is not called again.
\<close>

lemma one_shot_removed_when_execute_finishes:
  assumes "links v" and "x < length (executionHeap v)"
    and "removeAfterExecute (parameters (executionHeap v ! x))"
  shows "(\<forall>name cb (p::ExecutionParameters) w. wf w \<and> opt_removeAfterExecute p = Some True \<longrightarrow>
            attached (length (executionHeap w)) (snd (EventEmitter_addEvent name cb (Some p) w)) \<and>
            removeAfterExecute (parameters (executionHeap (snd (EventEmitter_addEvent name cb (Some p) w)) !
               length (executionHeap w)))) \<and>
         (\<forall>i. i < length (suspended v) \<and> fst (suspended v ! i) = x \<longrightarrow>
            \<not> attached x (fst (do_step prog d (Resume i) v)) \<and>
            (\<forall>ss d'. invocations x (trace (run prog d' ss (fst (do_step prog d (Resume i) v)))) =
                        invocations x (trace v) \<and>
                      unlisted x (run prog d' ss (fst (do_step prog d (Resume i) v))))) \<and>
         (\<not> dropped x v \<and>
          snd (invoke prog d (callbackFunction (executionHeap v ! x)) as (exec_begin x as v)) = Throws \<longrightarrow>
            \<not> attached x (fst (trigger prog d x as v)) \<and>
            (\<forall>ss d'. invocations x (trace (run prog d' ss (fst (trigger prog d x as v)))) =
                        invocations x (trace (fst (trigger prog d x as v))) \<and>
                      unlisted x (run prog d' ss (fst (trigger prog d x as v)))))"
proof (intro conjI allI impI)
  fix name cb and p :: ExecutionParameters and w
  assume "wf w \<and> opt_removeAfterExecute p = Some True"
  then show "attached (length (executionHeap w)) (snd (EventEmitter_addEvent name cb (Some p) w))"
    and "removeAfterExecute (parameters (executionHeap (snd (EventEmitter_addEvent name cb (Some p) w)) !
               length (executionHeap w)))"
    using addEvent_attaches [of w name cb "Some p"] by (simp_all add: new_parameters_def)
next
  fix i
  assume i: "i < length (suspended v) \<and> fst (suspended v ! i) = x"
  let ?v' = "fst (do_step prog d (Resume i) v)"
  have r: "?v' = Execution_afterCallback x (drop_frame i v)"
    using i by (simp add: drop_frame_def)
  have "links (drop_frame i v)" using assms(1) by (rule links_drop_frame)
  moreover have "x < length (executionHeap (drop_frame i v))"
    "removeAfterExecute (parameters (executionHeap (drop_frame i v) ! x))"
    "trace (drop_frame i v) = trace v"
    using assms(2,3) by (simp_all add: drop_frame_def)
  ultimately have g: "gone x (invocations x (trace v)) ?v'"
    unfolding r using afterCallback_gone [of "drop_frame i v" x] by simp
  then show "\<not> attached x ?v'"
    using unlisted_not_attached [of ?v' x] by (simp add: gone_def)
  fix ss d'
  show "invocations x (trace (run prog d' ss ?v')) = invocations x (trace v)"
    and "unlisted x (run prog d' ss ?v')"
    using gone_forever [OF g, of prog d' ss] by simp_all
next
  assume a: "\<not> dropped x v \<and>
     snd (invoke prog d (callbackFunction (executionHeap v ! x)) as (exec_begin x as v)) = Throws"
  let ?g = "callbackFunction (executionHeap v ! x)"
  let ?v' = "fst (trigger prog d x as v)"
  obtain w3 out where c: "invoke prog d ?g as (exec_begin x as v) = (w3, out)"
    by (cases "invoke prog d ?g as (exec_begin x as v)")
  then have out: "out = Throws" using a by simp
  have r: "?v' = Execution_afterCallback x w3"
    using a c out by (simp add: trigger_def Execution_execute_alt)
  have "links (exec_begin x as v)" using assms(1) by (rule links_exec_begin)
  then have l3: "links w3"
    using sync_invoke [OF stable_sync_of [OF stable_links], of "exec_begin x as v" prog d ?g as] c
    by simp
  have "ext v w3"
    using invoke_from_begin [OF links_wf [OF assms(1)] assms(2) c] by simp
  then have x3: "x < length (executionHeap w3)"
    and p3: "parameters (executionHeap w3 ! x) = parameters (executionHeap v ! x)"
    using assms(2) by (auto simp: ext_def exec_same_def)
  have "trace ?v' = trace w3"
    unfolding r using ext_afterCallback [of w3 x]
    by (simp add: Execution_afterCallback_def Let_def Execution_cancel_eq upd_exec_def)
  then have g: "gone x (invocations x (trace ?v')) ?v'"
    unfolding r using afterCallback_gone [OF l3 x3] p3 assms(3) by simp
  then show "\<not> attached x ?v'"
    using unlisted_not_attached [of ?v' x] by (simp add: gone_def)
  fix ss d'
  show "invocations x (trace (run prog d' ss ?v')) = invocations x (trace ?v')"
    and "unlisted x (run prog d' ss ?v')"
    using gone_forever [OF g, of prog d' ss] by simp_all
qed

lemma one_shot_removed_when_execute_finishes_example:
  "links one_shot_running \<and> 0 < length (executionHeap one_shot_running) \<and>
   removeAfterExecute (parameters (executionHeap one_shot_running ! 0)) \<and>
   attached 0 one_shot_running \<and> suspended one_shot_running = [(0, Resolves)] \<and>
   trace one_shot_running = [Invoked 0 [VNum 1]] \<and>
   \<not> attached 0 (fst (do_step demo 1 (Resume 0) one_shot_running)) \<and>
   invocations 0 (trace (run demo 1 [Call (EmitEvent ''a'' [VNum 2])]
      (fst (do_step demo 1 (Resume 0) one_shot_running)))) = [Invoked 0 [VNum 1]]"
proof -
  have l: "links one_shot_running"
    unfolding one_shot_running_def by (rule links_run)
  have x: "0 < length (executionHeap one_shot_running)" by code_simp
  have p: "removeAfterExecute (parameters (executionHeap one_shot_running ! 0))" by code_simp
  have a: "attached 0 one_shot_running" by code_simp
  have s: "suspended one_shot_running = [(0, Resolves)]" by code_simp
  have t: "trace one_shot_running = [Invoked 0 [VNum 1]]" by code_simp
  have i: "invocations 0 (trace one_shot_running) = [Invoked 0 [VNum 1]]"
    by (simp add: t)
  have r: "0 < length (suspended one_shot_running) \<and> fst (suspended one_shot_running ! 0) = 0"
    by (simp add: s)
  from one_shot_removed_when_execute_finishes [OF l x p, of demo 1 "[]"]
  have "\<forall>i. i < length (suspended one_shot_running) \<and> fst (suspended one_shot_running ! i) = 0 \<longrightarrow>
            \<not> attached 0 (fst (do_step demo 1 (Resume i) one_shot_running)) \<and>
            (\<forall>ss d'. invocations 0 (trace (run demo d' ss (fst (do_step demo 1 (Resume i) one_shot_running)))) =
                        invocations 0 (trace one_shot_running) \<and>
                      unlisted 0 (run demo d' ss (fst (do_step demo 1 (Resume i) one_shot_running))))"
    by (rule conjunct1 [OF conjunct2])
  then have "\<not> attached 0 (fst (do_step demo 1 (Resume 0) one_shot_running)) \<and>
            (\<forall>ss d'. invocations 0 (trace (run demo d' ss (fst (do_step demo 1 (Resume 0) one_shot_running)))) =
                        invocations 0 (trace one_shot_running) \<and>
                      unlisted 0 (run demo d' ss (fst (do_step demo 1 (Resume 0) one_shot_running))))"
    using r by blast
  then show ?thesis
    using l x p a s t i by (simp del: do_step.simps)
qed

section \<open>Fan-out\<close>

text \<open>
  Claim C1. \<open>emitEvent\<close> on an existing event calls \<open>execute\<close> on every \<open>Execution\<close> the
  \<open>Event\<close> holds when the fan-out starts, once each, in the order of the list, with the
  emitted arguments, whatever the callbacks do to the emitter meanwhile (remove
  themselves or others, subscribe, emit). The list holds no \<open>Execution\<close> twice and is
  in registration order: the ids, which \<open>addExecution\<close> hands out in increasing order,
  increase along it.
\<close>

theorem fanout_visits_snapshot:
  assumes "links w" and "find_event name w = Some e"
  shows "EventEmitter_emitEvent (trigger prog d) name as w =
           (fst (Event_fanout (trigger prog d) e as w), Normal) \<and>
         snd (snd (Event_fanout (trigger prog d) e as w)) =
           map (\<lambda>x. (x, as)) (arrayHeap w ! executions (eventHeap w ! e)) \<and>
         distinct (arrayHeap w ! executions (eventHeap w ! e)) \<and>
         sorted_wrt (\<lambda>x y. executionId (executionHeap w ! x) < executionId (executionHeap w ! y))
           (arrayHeap w ! executions (eventHeap w ! e))"
proof -
  note wfw = links_wf [OF assms(1)]
  have e: "e < length (eventHeap w)" "executions (eventHeap w ! e) < length (arrayHeap w)"
    using find_event_valid [OF wfw assms(2)] by simp_all
  have v: "snd (Event_fanout (trigger prog d) e as w) =
             (Normal, map (\<lambda>x. (x, as)) (arrayHeap w ! executions (eventHeap w ! e)))"
    using wfw e(1) by (rule Event_fanout_visits)
  have "distinct (arrayHeap w ! executions (eventHeap w ! e))"
    using wfw e(2) by (simp add: wf_def)
  moreover have "sorted_wrt (\<lambda>x y. executionId (executionHeap w ! x) < executionId (executionHeap w ! y))
           (arrayHeap w ! executions (eventHeap w ! e))"
    using assms(1) e(1) by (simp add: links_def)
  ultimately show ?thesis
    using v assms(2)
    by (auto simp: EventEmitter_emitEvent_def Event_execute_def split: prod.splits)
qed

theorem fanout_visits_snapshot_witness:
  "links three_subscribers \<and> find_event ''a'' three_subscribers = Some 0 \<and>
   snd (snd (Event_fanout (trigger demo 1) 0 [VNum 7] three_subscribers)) =
     [(0, [VNum 7]), (1, [VNum 7]), (2, [VNum 7])] \<and>
   arrayHeap (fst (Event_fanout (trigger demo 1) 0 [VNum 7] three_subscribers)) !
     executions (eventHeap (fst (Event_fanout (trigger demo 1) 0 [VNum 7] three_subscribers)) ! 0) = [1, 3]"
proof -
  have w: "links three_subscribers"
    unfolding three_subscribers_def by (rule links_run)
  have f: "find_event ''a'' three_subscribers = Some 0"
    by code_simp
  have a: "arrayHeap three_subscribers ! executions (eventHeap three_subscribers ! 0) = [0, 1, 2]"
    by code_simp
  have b: "arrayHeap (fst (Event_fanout (trigger demo 1) 0 [VNum 7] three_subscribers)) !
     executions (eventHeap (fst (Event_fanout (trigger demo 1) 0 [VNum 7] three_subscribers)) ! 0) = [1, 3]"
    by code_simp
  show ?thesis
    using fanout_visits_snapshot [OF w f, of demo 1 "[VNum 7]"] w f b by (simp add: a)
qed

lemma running_wf: "running S w \<Longrightarrow> wf w"
  by (simp add: running_def)

lemma running_at:
  "running S w \<Longrightarrow> x < length (executionHeap w) \<Longrightarrow> only_one w x \<Longrightarrow>
   frames_of x w \<le> 1 \<and> (0 < frames_of x w \<longrightarrow> busy w x) \<and> (x \<in> S \<longrightarrow> busy w x \<and> frames_of x w = 0)"
  by (simp add: running_def)

lemma running_valid: "running S w \<Longrightarrow> x \<in> S \<Longrightarrow> x < length (executionHeap w)"
  by (simp add: running_def)

lemma runningI:
  assumes "wf w" "\<And>x. x \<in> S \<Longrightarrow> x < length (executionHeap w)"
    "\<And>x. x < length (executionHeap w) \<Longrightarrow> only_one w x \<Longrightarrow>
       frames_of x w \<le> 1 \<and> (0 < frames_of x w \<longrightarrow> busy w x) \<and> (x \<in> S \<longrightarrow> busy w x \<and> frames_of x w = 0)"
  shows "running S w"
  using assms by (simp add: running_def)

lemma running_cong:
  assumes "running S w" "wf w'" "suspended w' = suspended w"
    "length (executionHeap w') = length (executionHeap w)"
    "\<And>y. only_one w' y = only_one w y" "\<And>y. busy w' y = busy w y"
  shows "running S w'"
  using assms by (simp add: running_def frames_of_def)

lemma frames_fresh: "wf w \<Longrightarrow> frames_of (length (executionHeap w)) w = 0"
  by (auto simp: frames_of_def wf_def filter_empty_conv)

lemma running_stop:
  assumes "running S w"
  shows "running S (stopAutomaticCancellation y w)"
  by (rule running_cong [OF assms wf_stop [OF running_wf [OF assms]]])
     (simp_all add: stopAutomaticCancellation_eq only_one_def busy_def)

lemma running_fire_begin:
  assumes "running S w"
  shows "running S (fire_begin t w)"
  by (rule running_cong [OF assms wf_fire_begin [OF running_wf [OF assms]]])
     (simp_all add: fire_begin_def only_one_def busy_def)

lemma running_cancel:
  assumes "running S w" "y < length (executionHeap w)"
  shows "running S (Execution_cancel y w)"
  by (rule running_cong [OF assms(1) wf_cancel [OF running_wf [OF assms(1)] assms(2)]])
     (simp_all add: Execution_cancel_eq only_one_def busy_def)

lemma running_removeEvent:
  assumes "running S w"
  shows "running S (EventEmitter_removeEvent name w)"
  by (rule running_cong [OF assms wf_removeEvent [OF running_wf [OF assms]]])
     (simp_all add: EventEmitter_removeEvent_def only_one_def busy_def)

lemma running_removeAllEvents:
  assumes "running S w"
  shows "running S (EventEmitter_removeAllEvents w)"
  by (rule running_cong [OF assms wf_removeAllEvents [OF running_wf [OF assms]]])
     (simp_all add: EventEmitter_removeAllEvents_def only_one_def busy_def)

lemma running_removeExecution:
  assumes "running S w"
  shows "running S (EventEmitter_removeExecution name i w)"
  by (rule running_cong [OF assms wf_removeExecution [OF running_wf [OF assms]]])
     (simp_all add: EventEmitter_removeExecution_def Event_removeExecution_eq Let_def only_one_def
        busy_def split: option.splits)

lemma running_addEvent:
  assumes "running S w"
  shows "running S (snd (EventEmitter_addEvent name cb p w))"
proof -
  let ?w' = "snd (EventEmitter_addEvent name cb p w)"
  let ?n = "length (executionHeap w)"
  have wf: "wf w" using assms by (rule running_wf)
  obtain e w0 where r: "register_event name w = (e, w0)"
    by (cases "register_event name w")
  have xs0: "executionHeap w0 = executionHeap w" "suspended w0 = suspended w"
    using r by (auto simp: register_event_def split: option.splits)
  have xs: "executionHeap ?w' = executionHeap w @
      [new_Execution e (executionCounter (eventHeap w0 ! e)) cb p (length (timers w0))]"
    and su: "suspended ?w' = suspended w"
    using r xs0 by (simp_all add: EventEmitter_addEvent_eq Event_addExecution_eq)
  have old: "only_one ?w' x = only_one w x \<and> busy ?w' x = busy w x" if "x < ?n" for x
    using that by (simp add: only_one_def busy_def xs nth_append)
  have fr: "frames_of x ?w' = frames_of x w" for x
    by (simp add: frames_of_def su)
  have f0: "frames_of ?n w = 0" using wf by (rule frames_fresh)
  have S: "\<forall>x\<in>S. x < ?n" using assms by (simp add: running_def)
  have "\<forall>x<length (executionHeap ?w'). only_one ?w' x \<longrightarrow>
        frames_of x ?w' \<le> 1 \<and> (0 < frames_of x ?w' \<longrightarrow> busy ?w' x) \<and>
        (x \<in> S \<longrightarrow> busy ?w' x \<and> frames_of x ?w' = 0)"
  proof (intro allI impI)
    fix x assume x: "x < length (executionHeap ?w')" and o: "only_one ?w' x"
    show "frames_of x ?w' \<le> 1 \<and> (0 < frames_of x ?w' \<longrightarrow> busy ?w' x) \<and>
        (x \<in> S \<longrightarrow> busy ?w' x \<and> frames_of x ?w' = 0)"
    proof (cases "x < ?n")
      case True
      then show ?thesis
        using assms o old [OF True] by (simp add: running_def fr)
    next
      case False
      then have "x = ?n" using x by (simp add: xs)
      then show ?thesis using f0 S by (auto simp: fr)
    qed
  qed
  moreover have "\<forall>x\<in>S. x < length (executionHeap ?w')"
    using S by (auto simp: xs)
  ultimately show ?thesis
    unfolding running_def using wf_addEvent [OF wf, of name cb p] by blast
qed

lemma api_running: "stable_api (running S)"
  unfolding stable_api_def
  by (intro conjI allI impI running_wf running_addEvent running_removeEvent running_removeExecution
        running_removeAllEvents)

lemma running_begin:
  assumes "running S w" "y < length (executionHeap w)" "\<not> dropped y w"
  shows "running (insert y S) (exec_begin y as w)"
proof (rule runningI)
  let ?w' = "exec_begin y as w"
  show "wf ?w'" using running_wf [OF assms(1)] by (rule wf_exec_begin)
  have ln: "length (executionHeap ?w') = length (executionHeap w)"
    by (simp add: exec_begin_def)
  show "x < length (executionHeap ?w')" if "x \<in> insert y S" for x
    using that assms(2) running_valid [OF assms(1), of x] by (auto simp: ln)
  fix x assume x: "x < length (executionHeap ?w')" and o: "only_one ?w' x"
  have x': "x < length (executionHeap w)" using x by (simp only: ln)
  have o': "only_one w x"
    using o by (auto simp: only_one_def exec_begin_def nth_upd split: if_splits)
  note k = running_at [OF assms(1) x' o']
  have b: "busy ?w' x = (busy w x \<or> x = y)"
    using x' by (simp add: busy_def exec_begin_def nth_upd)
  have f: "frames_of x ?w' = frames_of x w"
    by (simp add: frames_of_def exec_begin_def)
  show "frames_of x ?w' \<le> 1 \<and> (0 < frames_of x ?w' \<longrightarrow> busy ?w' x) \<and>
        (x \<in> insert y S \<longrightarrow> busy ?w' x \<and> frames_of x ?w' = 0)"
    unfolding b f
  proof (cases "x = y")
    case True
    have "\<not> busy w x"
      using assms(3) o' True by (simp add: dropped_def busy_def only_one_def)
    then have "frames_of x w = 0" using k by blast
    then show "frames_of x w \<le> 1 \<and> (0 < frames_of x w \<longrightarrow> busy w x \<or> x = y) \<and>
        (x \<in> insert y S \<longrightarrow> (busy w x \<or> x = y) \<and> frames_of x w = 0)"
      using True by simp
  next
    case False
    then show "frames_of x w \<le> 1 \<and> (0 < frames_of x w \<longrightarrow> busy w x \<or> x = y) \<and>
        (x \<in> insert y S \<longrightarrow> (busy w x \<or> x = y) \<and> frames_of x w = 0)"
      using k by simp
  qed
qed

lemma running_flags:
  assumes "running (insert y S) w" "y < length (executionHeap w)" "only_one w y \<longrightarrow> y \<notin> S"
  shows "running S (upd_exec y (\<lambda>X. X\<lparr>state := (state X)\<lparr>isExecuting := False, hasExecuted := True\<rparr>\<rparr>) w)"
proof (rule runningI)
  let ?w' = "upd_exec y (\<lambda>X. X\<lparr>state := (state X)\<lparr>isExecuting := False, hasExecuted := True\<rparr>\<rparr>) w"
  show "wf ?w'" using running_wf [OF assms(1)] by (rule wf_flags)
  have ln: "length (executionHeap ?w') = length (executionHeap w)"
    by (simp add: upd_exec_def)
  show "x < length (executionHeap ?w')" if "x \<in> S" for x
    using that running_valid [OF assms(1), of x] by (simp add: ln)
  fix x assume x: "x < length (executionHeap ?w')" and o: "only_one ?w' x"
  have x': "x < length (executionHeap w)" using x by (simp only: ln)
  have o': "only_one w x"
    using o by (auto simp: only_one_def upd_exec_def nth_upd split: if_splits)
  note k = running_at [OF assms(1) x' o']
  have b: "busy ?w' x = (busy w x \<and> x \<noteq> y)"
    using x' by (simp add: busy_def upd_exec_def nth_upd)
  have f: "frames_of x ?w' = frames_of x w"
    by (simp add: frames_of_def upd_exec_def)
  show "frames_of x ?w' \<le> 1 \<and> (0 < frames_of x ?w' \<longrightarrow> busy ?w' x) \<and>
        (x \<in> S \<longrightarrow> busy ?w' x \<and> frames_of x ?w' = 0)"
    unfolding b f
  proof (cases "x = y")
    case True
    have "frames_of x w = 0" using k True by simp
    moreover have "x \<notin> S" using assms(3) o' True by simp
    ultimately show "frames_of x w \<le> 1 \<and> (0 < frames_of x w \<longrightarrow> busy w x \<and> x \<noteq> y) \<and>
        (x \<in> S \<longrightarrow> (busy w x \<and> x \<noteq> y) \<and> frames_of x w = 0)"
      by simp
  next
    case False
    then show "frames_of x w \<le> 1 \<and> (0 < frames_of x w \<longrightarrow> busy w x \<and> x \<noteq> y) \<and>
        (x \<in> S \<longrightarrow> (busy w x \<and> x \<noteq> y) \<and> frames_of x w = 0)"
      using k by simp
  qed
qed

lemma running_afterCallback:
  assumes "running (insert y S) w" "y < length (executionHeap w)" "only_one w y \<longrightarrow> y \<notin> S"
  shows "running S (Execution_afterCallback y w)"
proof -
  let ?w1 = "upd_exec y (\<lambda>X. X\<lparr>state := (state X)\<lparr>isExecuting := False, hasExecuted := True\<rparr>\<rparr>) w"
  have r1: "running S ?w1" using assms by (rule running_flags)
  have "y < length (executionHeap ?w1)" using assms(2) by (simp add: upd_exec_def)
  then have "running S (Execution_cancel y ?w1)" using r1 running_cancel by blast
  then show ?thesis
    using r1 by (simp add: Execution_afterCallback_def Let_def)
qed

lemma running_suspend:
  assumes "running (insert y S) w" "y < length (executionHeap w)" "only_one w y \<longrightarrow> y \<notin> S"
  shows "running S (suspend y out w)"
proof (rule runningI)
  let ?w' = "suspend y out w"
  show "wf ?w'" using running_wf [OF assms(1)] assms(2) by (rule wf_suspend)
  have ln: "length (executionHeap ?w') = length (executionHeap w)"
    by (simp add: suspend_def)
  show "x < length (executionHeap ?w')" if "x \<in> S" for x
    using that running_valid [OF assms(1), of x] by (simp add: ln)
  fix x assume x: "x < length (executionHeap ?w')" and o: "only_one ?w' x"
  have x': "x < length (executionHeap w)" using x by (simp only: ln)
  have o': "only_one w x" using o by (simp add: only_one_def suspend_def)
  note k = running_at [OF assms(1) x' o']
  have b: "busy ?w' x = busy w x"
    by (simp add: busy_def suspend_def)
  have f: "frames_of x ?w' = frames_of x w + (if x = y then 1 else 0)"
    by (simp add: frames_of_def suspend_def)
  show "frames_of x ?w' \<le> 1 \<and> (0 < frames_of x ?w' \<longrightarrow> busy ?w' x) \<and>
        (x \<in> S \<longrightarrow> busy ?w' x \<and> frames_of x ?w' = 0)"
    unfolding b f
  proof (cases "x = y")
    case True
    have "frames_of x w = 0" "busy w x" using k True by simp_all
    moreover have "x \<notin> S" using assms(3) o' True by simp
    ultimately show "frames_of x w + (if x = y then 1 else 0) \<le> 1 \<and>
        (0 < frames_of x w + (if x = y then 1 else 0) \<longrightarrow> busy w x) \<and>
        (x \<in> S \<longrightarrow> busy w x \<and> frames_of x w + (if x = y then 1 else 0) = 0)"
      using True by simp
  next
    case False
    then show "frames_of x w + (if x = y then 1 else 0) \<le> 1 \<and>
        (0 < frames_of x w + (if x = y then 1 else 0) \<longrightarrow> busy w x) \<and>
        (x \<in> S \<longrightarrow> busy w x \<and> frames_of x w + (if x = y then 1 else 0) = 0)"
      using k by simp
  qed
qed

lemma ext_invoke: "wf w \<Longrightarrow> ext w (fst (invoke prog d g as w))"
  using sync_invoke [OF stable_sync_of [OF stable_ext [of w]], of w prog d g as] by simp

lemma running_Execution_execute:
  assumes call_ok: "\<And>S g as w. running S w \<Longrightarrow> running S (fst (call g as w))"
    and call_ext: "\<And>g as w. wf w \<Longrightarrow> ext w (fst (call g as w))"
    and r: "running S w" and y: "y < length (executionHeap w)"
  shows "running S (fst (Execution_execute call y as w))"
proof (cases "dropped y w")
  case True
  then show ?thesis using r by (simp add: Execution_execute_alt running_stop)
next
  case False
  let ?g = "callbackFunction (executionHeap w ! y)"
  obtain w3 out where c: "call ?g as (exec_begin y as w) = (w3, out)"
    by (cases "call ?g as (exec_begin y as w)")
  have b: "running (insert y S) (exec_begin y as w)"
    using r y False by (rule running_begin)
  have r3: "running (insert y S) w3"
    using call_ok [OF b, of ?g as] c by simp
  have "ext (exec_begin y as w) w3"
    using call_ext [OF running_wf [OF b], of ?g as] c by simp
  then have e3: "ext w w3"
    using ext_exec_begin ext_trans by blast
  then have y3: "y < length (executionHeap w3)"
    and p3: "parameters (executionHeap w3 ! y) = parameters (executionHeap w ! y)"
    using y by (auto simp: ext_def exec_same_def)
  have "only_one w3 y \<longrightarrow> y \<notin> S"
  proof
    assume "only_one w3 y"
    then have o: "only_one w y" using p3 by (simp add: only_one_def)
    show "y \<notin> S"
    proof
      assume "y \<in> S"
      then have "busy w y" using running_at [OF r y o] by simp
      then show False using False o by (simp add: dropped_def busy_def only_one_def)
    qed
  qed
  then have "running S (Execution_afterCallback y w3)" "running S (suspend y out w3)"
    using r3 y3 by (simp_all add: running_afterCallback running_suspend)
  then show ?thesis
    using False c by (cases out) (simp_all add: Execution_execute_alt)
qed

lemma running_invoke: "running S w \<Longrightarrow> running S (fst (invoke prog d g as w))"
proof (induction d arbitrary: S g as w)
  case 0
  then show ?case by simp
next
  case (Suc d)
  have ok: "\<And>x as w. running S w \<Longrightarrow> x < length (executionHeap w) \<Longrightarrow>
              running S (fst (Execution_execute (invoke prog d) x as w))"
    by (rule running_Execution_execute [OF Suc.IH ext_invoke])
  have gr: "\<And>x as w. grows w (fst (Execution_execute (invoke prog d) x as w))"
    by (rule grows_Execution_execute) (rule grows_invoke)
  from sync_run_actions [of "running S" "Execution_execute (invoke prog d)", OF api_running ok gr Suc.prems]
  show ?case
    by (auto split: prod.splits completion.splits) (metis fst_conv)+
qed

lemma running_trigger:
  "running S w \<Longrightarrow> x < length (executionHeap w) \<Longrightarrow> running S (fst (trigger prog d x as w))"
  unfolding trigger_def
  by (rule running_Execution_execute [OF running_invoke ext_invoke])

lemma filter_drop_nth:
  assumes "i < length xs"
  shows "length (filter P (take i xs @ drop (Suc i) xs)) =
         length (filter P xs) - (if P (xs ! i) then 1 else 0)"
proof -
  have "xs = take i xs @ xs ! i # drop (Suc i) xs"
    using assms by (rule id_take_nth_drop)
  then have "length (filter P xs) = length (filter P (take i xs @ xs ! i # drop (Suc i) xs))"
    by simp
  then show ?thesis by simp
qed

lemma running_resume:
  assumes "running {} w" "i < length (suspended w)"
  shows "running {} (Execution_afterCallback (fst (suspended w ! i)) (drop_frame i w))"
proof -
  let ?y = "fst (suspended w ! i)"
  let ?w' = "drop_frame i w"
  have wf: "wf w" using assms(1) by (rule running_wf)
  have y: "?y < length (executionHeap w)"
    using wf assms(2) by (simp add: wf_def)
  have fr: "frames_of x ?w' = frames_of x w - (if x = ?y then 1 else 0)" for x
    using filter_drop_nth [OF assms(2), of "\<lambda>p. fst p = x"]
    by (auto simp: frames_of_def drop_frame_def)
  have fy: "0 < frames_of ?y w"
    using assms(2) by (auto simp: frames_of_def filter_empty_conv intro!: nth_mem)
  have "running {?y} ?w'"
  proof (rule runningI)
    show "wf ?w'" using wf by (rule wf_drop_frame)
    show "x < length (executionHeap ?w')" if "x \<in> {?y}" for x
      using that y by (simp add: drop_frame_def)
    fix x assume x: "x < length (executionHeap ?w')" and o: "only_one ?w' x"
    have x': "x < length (executionHeap w)" using x by (simp add: drop_frame_def)
    have o': "only_one w x" using o by (simp add: only_one_def drop_frame_def)
    note k = running_at [OF assms(1) x' o']
    have b: "busy ?w' z = busy w z" for z by (simp add: busy_def drop_frame_def)
    show "frames_of x ?w' \<le> 1 \<and> (0 < frames_of x ?w' \<longrightarrow> busy ?w' x) \<and>
        (x \<in> {?y} \<longrightarrow> busy ?w' x \<and> frames_of x ?w' = 0)"
      using k fy by (auto simp: b fr)
  qed
  moreover have "?y < length (executionHeap ?w')" using y by (simp add: drop_frame_def)
  ultimately show ?thesis
    by (intro running_afterCallback) simp_all
qed

lemma running_do_step:
  assumes r: "running {} w"
  shows "running {} (fst (do_step prog d s w))"
proof (cases s)
  case (Call a)
  show ?thesis
    unfolding Call do_step.simps
    by (rule sync_do_action [OF api_running running_trigger grows_trigger r])
next
  case (Fire t)
  show ?thesis
  proof (cases "t < length (timers w) \<and> pending (timers w ! t)")
    case False
    then show ?thesis using r Fire by auto
  next
    case True
    let ?x = "owner (timers w ! t)"
    let ?g = "callback (expirationCallback (parameters (executionHeap w ! ?x)))"
    obtain w1 out where c: "invoke prog d ?g [] (fire_begin t w) = (w1, out)"
      by (cases "invoke prog d ?g [] (fire_begin t w)")
    have xv: "?x < length (executionHeap w)"
      using running_wf [OF r] True by (simp add: wf_def)
    have b: "running {} (fire_begin t w)" using r by (rule running_fire_begin)
    have r1: "running {} w1"
      using running_invoke [OF b, of prog d ?g "[]"] c by simp
    have "grows (fire_begin t w) w1"
      using grows_invoke [of "fire_begin t w" prog d ?g "[]"] c by simp
    then have "grows w w1"
      using grows_fire_begin grows_trans by blast
    then have "?x < length (executionHeap w1)"
      using xv by (simp add: grows_def)
    then have "running {} (Execution_cancel ?x w1)"
      using r1 by (simp add: running_cancel)
    then show ?thesis
      using True Fire c r1 by (cases out) (simp_all add: timeout_closure_alt)
  qed
next
  case (Resume i)
  show ?thesis
  proof (cases "i < length (suspended w)")
    case False
    then show ?thesis using r Resume by simp
  next
    case True
    then show ?thesis
      using running_resume [OF r True] Resume by (simp add: drop_frame_def)
  qed
qed

lemma running_run: "running {} w \<Longrightarrow> running {} (run prog d ss w)"
  unfolding run_def
  by (induction ss arbitrary: w) (simp_all add: running_do_step)

lemma running_new: "running {} (EventEmitter_new name)"
  by (rule runningI) (simp_all add: wf_new, simp add: EventEmitter_new_def)

lemma trace_afterCallback [simp]: "trace (Execution_afterCallback y w) = trace w"
  by (simp add: Execution_afterCallback_def Let_def Execution_cancel_eq upd_exec_def)



lemma forEach_from_fold:
  assumes f_wf: "\<And>x as w. wf w \<Longrightarrow> x < length (executionHeap w) \<Longrightarrow> wf (fst (f x as w))"
    and f_ext: "\<And>x as w. wf w \<Longrightarrow> x < length (executionHeap w) \<Longrightarrow> ext w (fst (f x as w))"
    and f_normal: "\<And>x as w. snd (f x as w) = Normal"
  shows "wf w \<Longrightarrow> a < length (arrayHeap w) \<Longrightarrow> k + n \<le> length (arrayHeap w ! a) \<Longrightarrow>
         fst (forEach_from f a as k n w) =
           fold (\<lambda>y v. fst (f y as v)) (take n (drop k (arrayHeap w ! a))) w"
proof (induction n arbitrary: k w)
  case 0
  then show ?case by simp
next
  case (Suc n)
  let ?L = "arrayHeap w ! a"
  let ?x = "?L ! k"
  have k: "k < length ?L" using Suc.prems(3) by simp
  obtain w1 c where fx: "f ?x as w = (w1, c)" by (cases "f ?x as w")
  have c: "c = Normal" using f_normal [of ?x as w] fx by simp
  have xv: "?x < length (executionHeap w)"
    using Suc.prems(1,2) k by (simp add: wf_def)
  have w1: "wf w1" using f_wf [OF Suc.prems(1) xv, of as] fx by simp
  have e1: "ext w w1" using f_ext [OF Suc.prems(1) xv, of as] fx by simp
  then have a1: "a < length (arrayHeap w1)" and p: "prefix ?L (arrayHeap w1 ! a)"
    using Suc.prems(2) by (auto simp: ext_def)
  then have "Suc k + n \<le> length (arrayHeap w1 ! a)"
    using Suc.prems(3) prefix_length_le [OF p] by simp
  from Suc.IH [OF w1 a1 this]
  have "fst (forEach_from f a as (Suc k) n w1) =
          fold (\<lambda>y v. fst (f y as v)) (take n (drop (Suc k) (arrayHeap w1 ! a))) w1" .
  moreover have "take n (drop (Suc k) (arrayHeap w1 ! a)) = take n (drop (Suc k) ?L)"
    using p Suc.prems(3) by (intro take_drop_prefix) simp_all
  moreover have "take (Suc n) (drop k ?L) = ?x # take n (drop (Suc k) ?L)"
    by (metis k Cons_nth_drop_Suc take_Suc_Cons)
  ultimately show ?case
    using k fx c by (auto split: prod.splits)
qed

lemma Event_fanout_fold:
  assumes "wf w" "e < length (eventHeap w)"
  shows "fst (Event_fanout (trigger prog d) e as w) =
           fold (\<lambda>y v. fst (trigger prog d y as v)) (arrayHeap w ! executions (eventHeap w ! e)) w"
proof -
  have a: "executions (eventHeap w ! e) < length (arrayHeap w)"
    using assms by (simp add: wf_def)
  show ?thesis
    unfolding Event_fanout_def Array_forEach_def
    using forEach_from_fold [of "trigger prog d" w "executions (eventHeap w ! e)" 0
        "length (arrayHeap w ! executions (eventHeap w ! e))" as, OF wf_trigger ext_trigger trigger_Normal
        assms(1) a]
    by simp
qed

lemma emitEvent_fold:
  assumes "wf w" "find_event name w = Some e"
  shows "EventEmitter_emitEvent (trigger prog d) name as w =
           (fold (\<lambda>y v. fst (trigger prog d y as v)) (arrayHeap w ! executions (eventHeap w ! e)) w,
            Normal)"
proof -
  have e: "e < length (eventHeap w)"
    using find_event_valid [OF assms] by simp
  have "snd (EventEmitter_emitEvent (trigger prog d) name as w) = Normal"
    by (rule emitEvent_Normal) (rule trigger_Normal)
  moreover have "fst (EventEmitter_emitEvent (trigger prog d) name as w) =
      fst (Event_fanout (trigger prog d) e as w)"
    using assms(2) by (simp add: EventEmitter_emitEvent_def Event_execute_def split: prod.splits)
  ultimately show ?thesis
    using Event_fanout_fold [OF assms(1) e, of prog d as] by (simp add: prod_eq_iff)
qed

lemma fold_trigger_trace:
  "wf w \<Longrightarrow> \<forall>y\<in>set ys. y < length (executionHeap w) \<Longrightarrow>
   prefix (trace w) (trace (fold (\<lambda>y v. fst (trigger prog d y as v)) ys w)) \<and>
   subseq (map (\<lambda>y. Invoked y as)
             (filter (\<lambda>y. \<not> onlyOneExecutionAtATime (parameters (executionHeap w ! y))) ys))
          (drop (length (trace w)) (trace (fold (\<lambda>y v. fst (trigger prog d y as v)) ys w)))"
proof (induction ys arbitrary: w)
  case Nil
  then show ?case by simp
next
  case (Cons y ys)
  let ?P = "\<lambda>w y. \<not> onlyOneExecutionAtATime (parameters (executionHeap w ! y))"
  let ?w1 = "fst (trigger prog d y as w)"
  let ?w2 = "fold (\<lambda>y v. fst (trigger prog d y as v)) ys ?w1"
  have y: "y < length (executionHeap w)" using Cons.prems(2) by simp
  have w1: "wf ?w1" using Cons.prems(1) y by (rule wf_trigger)
  have e1: "ext w ?w1" using Cons.prems(1) y by (rule ext_trigger)
  have v1: "\<forall>z\<in>set ys. z < length (executionHeap ?w1)"
    using Cons.prems(2) e1 by (auto simp: ext_def)
  have same: "?P ?w1 z = ?P w z" if "z \<in> set ys" for z
    using that Cons.prems(2) e1 by (auto simp: ext_def exec_same_def)
  have f: "filter (?P ?w1) ys = filter (?P w) ys"
    using same by (intro filter_cong) auto
  from Cons.IH [OF w1 v1]
  have p2: "prefix (trace ?w1) (trace ?w2)"
    and s2: "subseq (map (\<lambda>y. Invoked y as) (filter (?P w) ys))
               (drop (length (trace ?w1)) (trace ?w2))"
    by (simp_all add: f)
  have p1: "prefix (trace w) (trace ?w1)" using e1 by (simp add: ext_def)
  obtain r1 where r1: "trace ?w1 = trace w @ r1" using p1 by (auto simp: prefix_def)
  obtain r2 where r2: "trace ?w2 = trace ?w1 @ r2" using p2 by (auto simp: prefix_def)
  have d: "drop (length (trace w)) (trace ?w2) = r1 @ r2"
    "drop (length (trace ?w1)) (trace ?w2) = r2"
    by (simp_all add: r2) (simp add: r1)
  have s: "subseq (map (\<lambda>y. Invoked y as) (filter (?P w) ys)) r2"
    using s2 by (simp add: d)
  have "subseq (map (\<lambda>y. Invoked y as) (filter (?P w) (y # ys))) (r1 @ r2)"
  proof (cases "?P w y")
    case False
    then show ?thesis using s by (auto intro: list_emb_append2)
  next
    case True
    then have "\<not> dropped y w" by (simp add: dropped_def)
    from trigger_invokes [OF Cons.prems(1) y this, of as prog d]
    obtain r where "r1 = Invoked y as # r"
      by (auto simp: r1 prefix_def)
    then show ?thesis using True s by (auto intro: list_emb_append2)
  qed
  moreover have "prefix (trace w) (trace ?w2)"
    using p1 p2 by (rule prefix_order.trans)
  ultimately show ?case by (simp add: d)
qed

text \<open>
  Claim C6. An error of a subscribed callback never reaches the caller of \<open>emitEvent\<close>.
  Every emission ends normally, and the state it leaves is the one reached by calling
  \<open>execute\<close> with the emitted arguments on each \<open>Execution\<close> of the list, one after the
  other in the order of the list, whatever the callbacks do: after a callback that throws
  or rejects, the emission goes on with the next \<open>Execution\<close>. In the observations the
  emission adds, every \<open>Execution\<close> of the list (those with \<open>onlyOneExecutionAtATime\<close>
  apart, whose call may be dropped while they run) has its callback called with the
  emitted arguments, in the order of the list.
  For an \<open>Execution\<close> \<open>x\<close> whose callback is called and ends with \<open>out\<close>: when it
  throws, \<open>execute\<close> runs its remaining statements at once; when it returns (a promise that
  rejects included), \<open>execute\<close> is suspended and runs them when resumed. In both cases
  these statements clear \<open>isExecuting\<close>, set \<open>hasExecuted\<close> and, under
  \<open>removeAfterExecute\<close>, take \<open>x\<close> out of its \<open>Event\<close>.
\<close>

theorem callback_errors_contained:
  assumes "wf w" and "x < length (executionHeap w)" and "\<not> dropped x w"
    and "invoke prog d (callbackFunction (executionHeap w ! x)) as (exec_begin x as w) = (w3, out)"
  shows "snd (EventEmitter_emitEvent (trigger prog d) name as w) = Normal \<and>
         (\<forall>e. find_event name w = Some e \<longrightarrow>
            EventEmitter_emitEvent (trigger prog d) name as w =
              (fold (\<lambda>y v. fst (trigger prog d y as v))
                 (arrayHeap w ! executions (eventHeap w ! e)) w, Normal) \<and>
            snd (snd (Event_fanout (trigger prog d) e as w)) =
              map (\<lambda>y. (y, as)) (arrayHeap w ! executions (eventHeap w ! e)) \<and>
            subseq (map (\<lambda>y. Invoked y as)
                      (filter (\<lambda>y. \<not> onlyOneExecutionAtATime (parameters (executionHeap w ! y)))
                         (arrayHeap w ! executions (eventHeap w ! e))))
                   (drop (length (trace w))
                      (trace (fst (EventEmitter_emitEvent (trigger prog d) name as w))))) \<and>
         prefix (trace w @ [Invoked x as]) (trace (fst (trigger prog d x as w))) \<and>
         (out = Throws \<longrightarrow> trigger prog d x as w = (Execution_afterCallback x w3, Normal)) \<and>
         (out \<noteq> Throws \<longrightarrow>
            trigger prog d x as w = (suspend x out w3, Normal) \<and>
            do_step prog d (Resume (length (suspended w3))) (suspend x out w3) =
              (Execution_afterCallback x w3, Normal)) \<and>
         \<not> isExecuting (state (executionHeap (Execution_afterCallback x w3) ! x)) \<and>
         hasExecuted (state (executionHeap (Execution_afterCallback x w3) ! x)) \<and>
         (removeAfterExecute (parameters (executionHeap w ! x)) \<longrightarrow>
            \<not> attached x (Execution_afterCallback x w3))"
proof -
  have n: "snd (EventEmitter_emitEvent (trigger prog d) name as w) = Normal"
    by (rule emitEvent_Normal) (rule trigger_Normal)
  have em: "EventEmitter_emitEvent (trigger prog d) name as w =
              (fold (\<lambda>y v. fst (trigger prog d y as v))
                 (arrayHeap w ! executions (eventHeap w ! e)) w, Normal)"
    and v: "snd (snd (Event_fanout (trigger prog d) e as w)) =
             map (\<lambda>y. (y, as)) (arrayHeap w ! executions (eventHeap w ! e))"
    and sq: "subseq (map (\<lambda>y. Invoked y as)
                      (filter (\<lambda>y. \<not> onlyOneExecutionAtATime (parameters (executionHeap w ! y)))
                         (arrayHeap w ! executions (eventHeap w ! e))))
                   (drop (length (trace w))
                      (trace (fst (EventEmitter_emitEvent (trigger prog d) name as w))))"
    if f: "find_event name w = Some e" for e
  proof -
    have e: "e < length (eventHeap w)" "executions (eventHeap w ! e) < length (arrayHeap w)"
      using find_event_valid [OF assms(1) f] by simp_all
    show em: "EventEmitter_emitEvent (trigger prog d) name as w =
              (fold (\<lambda>y v. fst (trigger prog d y as v))
                 (arrayHeap w ! executions (eventHeap w ! e)) w, Normal)"
      using assms(1) f by (rule emitEvent_fold)
    show "snd (snd (Event_fanout (trigger prog d) e as w)) =
             map (\<lambda>y. (y, as)) (arrayHeap w ! executions (eventHeap w ! e))"
      using Event_fanout_visits [OF assms(1) e(1), of prog d as] by simp
    have "\<forall>y\<in>set (arrayHeap w ! executions (eventHeap w ! e)). y < length (executionHeap w)"
      using assms(1) e(2) by (simp add: wf_def)
    from fold_trigger_trace [OF assms(1) this, of prog d as]
    show "subseq (map (\<lambda>y. Invoked y as)
                      (filter (\<lambda>y. \<not> onlyOneExecutionAtATime (parameters (executionHeap w ! y)))
                         (arrayHeap w ! executions (eventHeap w ! e))))
                   (drop (length (trace w))
                      (trace (fst (EventEmitter_emitEvent (trigger prog d) name as w))))"
      unfolding em by simp
  qed
  have i: "prefix (trace w @ [Invoked x as]) (trace (fst (trigger prog d x as w)))"
    using assms(1-3) by (rule trigger_invokes)
  have t: "out = Throws \<Longrightarrow> trigger prog d x as w = (Execution_afterCallback x w3, Normal)"
    and s: "out \<noteq> Throws \<Longrightarrow> trigger prog d x as w = (suspend x out w3, Normal)"
    using assms(3,4) by (cases out; simp add: trigger_def Execution_execute_alt)+
  have w3: "wf w3" "ext w w3"
    using invoke_from_begin [OF assms(1,2,4)] by simp_all
  then have x3: "x < length (executionHeap w3)"
    and p3: "parameters (executionHeap w3 ! x) = parameters (executionHeap w ! x)"
    using assms(2) by (auto simp: ext_def exec_same_def)
  have d: "removeAfterExecute (parameters (executionHeap w ! x)) \<Longrightarrow>
           \<not> attached x (Execution_afterCallback x w3)"
    using afterCallback_detaches [OF w3(1) x3] p3 by simp
  show ?thesis
    using n em v sq i t s d afterCallback_flags [OF x3] resume_last_frame [of prog d w3 x out]
    by blast
qed

theorem callback_errors_contained_witness:
  "wf failing_subscribers \<and> 0 < length (executionHeap failing_subscribers) \<and>
   \<not> dropped 0 failing_subscribers \<and>
   snd (invoke demo 1 (callbackFunction (executionHeap failing_subscribers ! 0)) [VNum 7]
          (exec_begin 0 [VNum 7] failing_subscribers)) = Throws \<and>
   find_event ''a'' failing_subscribers = Some 0 \<and>
   arrayHeap failing_subscribers ! executions (eventHeap failing_subscribers ! 0) = [0, 1, 2] \<and>
   trace failing_subscribers = [] \<and>
   snd (EventEmitter_emitEvent (trigger demo 1) ''a'' [VNum 7] failing_subscribers) = Normal \<and>
   subseq [Invoked 0 [VNum 7], Invoked 1 [VNum 7], Invoked 2 [VNum 7]]
     (trace (fst (EventEmitter_emitEvent (trigger demo 1) ''a'' [VNum 7] failing_subscribers))) \<and>
   trace (fst (EventEmitter_emitEvent (trigger demo 1) ''a'' [VNum 7] failing_subscribers)) =
     [Invoked 0 [VNum 7], Invoked 1 [VNum 7], Invoked 2 [VNum 7]] \<and>
   hasExecuted (state (executionHeap
     (fst (EventEmitter_emitEvent (trigger demo 1) ''a'' [VNum 7] failing_subscribers)) ! 0)) \<and>
   \<not> attached 0 (fst (EventEmitter_emitEvent (trigger demo 1) ''a'' [VNum 7] failing_subscribers)) \<and>
   suspended (fst (EventEmitter_emitEvent (trigger demo 1) ''a'' [VNum 7] failing_subscribers)) =
     [(1, Rejects), (2, Resolves)] \<and>
   hasExecuted (state (executionHeap
     (run demo 1 [Call (EmitEvent ''a'' [VNum 7]), Resume 0] failing_subscribers) ! 1))"
proof -
  let ?r = "invoke demo 1 (callbackFunction (executionHeap failing_subscribers ! 0)) [VNum 7]
          (exec_begin 0 [VNum 7] failing_subscribers)"
  let ?v = "fst (EventEmitter_emitEvent (trigger demo 1) ''a'' [VNum 7] failing_subscribers)"
  have w: "wf failing_subscribers"
    unfolding failing_subscribers_def by (rule wf_run)
  have x: "0 < length (executionHeap failing_subscribers)" by code_simp
  have nd: "\<not> dropped 0 failing_subscribers" by code_simp
  have o: "snd ?r = Throws" by code_simp
  have f: "find_event ''a'' failing_subscribers = Some 0" by code_simp
  have a: "arrayHeap failing_subscribers ! executions (eventHeap failing_subscribers ! 0) = [0, 1, 2]"
    by code_simp
  have p: "\<not> onlyOneExecutionAtATime (parameters (executionHeap failing_subscribers ! 0))"
    "\<not> onlyOneExecutionAtATime (parameters (executionHeap failing_subscribers ! 1))"
    "\<not> onlyOneExecutionAtATime (parameters (executionHeap failing_subscribers ! 2))"
    by code_simp+
  have t0: "trace failing_subscribers = []" by code_simp
  have t: "trace ?v = [Invoked 0 [VNum 7], Invoked 1 [VNum 7], Invoked 2 [VNum 7]]" by code_simp
  have h: "hasExecuted (state (executionHeap ?v ! 0))" by code_simp
  have d: "\<not> attached 0 ?v" by code_simp
  have s: "suspended ?v = [(1, Rejects), (2, Resolves)]" by code_simp
  have h1: "hasExecuted (state (executionHeap
     (run demo 1 [Call (EmitEvent ''a'' [VNum 7]), Resume 0] failing_subscribers) ! 1))" by code_simp
  have i: "?r = (fst ?r, snd ?r)" by simp
  from callback_errors_contained [OF w x nd i, of "''a''"]
  have "snd (EventEmitter_emitEvent (trigger demo 1) ''a'' [VNum 7] failing_subscribers) = Normal"
    and "\<forall>e. find_event ''a'' failing_subscribers = Some e \<longrightarrow>
       subseq (map (\<lambda>y. Invoked y [VNum 7])
                (filter (\<lambda>y. \<not> onlyOneExecutionAtATime (parameters (executionHeap failing_subscribers ! y)))
                   (arrayHeap failing_subscribers ! executions (eventHeap failing_subscribers ! e))))
              (drop (length (trace failing_subscribers)) (trace ?v))"
    by blast+
  then have "snd (EventEmitter_emitEvent (trigger demo 1) ''a'' [VNum 7] failing_subscribers) = Normal"
    and "subseq [Invoked 0 [VNum 7], Invoked 1 [VNum 7], Invoked 2 [VNum 7]] (trace ?v)"
    using f a p t0 by simp_all
  then show ?thesis
    using w x nd o f a t0 t h d s h1 by simp
qed

text \<open>
  Claim C7 (fails on the code). A subscription made with \<open>removeAfterExecute\<close> should be
  out of its \<open>Event\<close> as soon as its callback has returned or thrown, and no later
  emission should call the callback again. \<open>execute\<close> removes the \<open>Execution\<close> only in
  the statements after \<open>await\<close>: when the callback returns, these run when the suspended
  call is resumed, not when the callback returns. Here a one-shot subscription with a
  callback that returns at once is made and its event emitted: after the emission the
  callback has been called and has returned, the \<open>Execution\<close> is still in its \<open>Event\<close>,
  and a second emission made before the resumption calls the callback a second time.
  When the callback throws, the removal is made at once; even so, a fan-out that began
  before (here the callback of the first subscription emits the same event) calls
  \<open>execute\<close> on the removed \<open>Execution\<close> once more, and its callback runs twice.
\<close>

theorem one_shot_called_twice:
  "removeAfterExecute (parameters (executionHeap one_shot_running ! 0)) \<and>
   trace one_shot_running = [Invoked 0 [VNum 1]] \<and>
   suspended one_shot_running = [(0, Resolves)] \<and>
   attached 0 one_shot_running \<and>
   Event_getTotalExecutions 0 one_shot_running = 1 \<and>
   trace (run demo 1 [Call (AddEvent ''a'' (UserFn 0) (Some once)), Call (EmitEvent ''a'' [VNum 1]),
                      Call (EmitEvent ''a'' [VNum 2])] (EventEmitter_new ''r'')) =
     [Invoked 0 [VNum 1], Invoked 0 [VNum 2]] \<and>
   removeAfterExecute (parameters (executionHeap one_shot_behind_emitter ! 1)) \<and>
   trace (run reentrant 2 [Call (EmitEvent ''a'' [VNum 1])] one_shot_behind_emitter) =
     [Invoked 0 [VNum 1], Invoked 0 [VNum 2], Invoked 1 [VNum 2], Invoked 1 [VNum 1]]"
  by code_simp

section \<open>Removal through the emitter and the expiration timer\<close>

text \<open>
  Claim C2 (fails on the code). An \<open>Execution\<close> with an expiration, removed through its
  handle or through \<open>removeEvent\<close>, should have its timer cancelled. The code only
  filters the lists: after the removal the timer is still due, and when it fires the
  expiration callback is called for the removed \<open>Execution\<close>.
\<close>

theorem removal_leaves_timer_armed:
  "(case EventEmitter_addEvent ''a'' (UserFn 0) (Some expiring) (EventEmitter_new ''r'') of
      (h, w1) \<Rightarrow>
        let w2 = ListenerActions_remove h w1;
            w3 = fst (do_step demo 1 (Fire 0) w2)
        in find_event ''a'' w2 = None \<and> pending (timers w2 ! 0) \<and> trace w2 = [] \<and>
           trace w3 = [Expired 0 False]) \<and>
   (let v1 = run demo 1 [Call (AddEvent ''a'' (UserFn 0) (Some expiring)), Call (RemoveEvent ''a'')]
               (EventEmitter_new ''r'');
        v2 = run demo 1 [Fire 0] v1
    in events v1 = [] \<and> pending (timers v1 ! 0) \<and> trace v1 = [] \<and> trace v2 = [Expired 0 True])"
  by code_simp

section \<open>Events left without executions\<close>

text \<open>
  Claim C3 (fails on the code). No \<open>Event\<close> without executions should stay in the
  emitter. \<open>Execution.cancel\<close> removes the \<open>Execution\<close> from its \<open>Event\<close> and stops
  there: after a completed run with \<open>removeAfterExecute\<close>, and after an expiration, the
  emitter still holds the \<open>Event\<close>, now empty.
\<close>

theorem cancel_leaves_empty_event:
  "(let w = run demo 1 [Call (AddEvent ''a'' (UserFn 0) (Some once)), Call (EmitEvent ''a'' []), Resume 0]
              (EventEmitter_new ''r'')
    in trace w = [Invoked 0 []] \<and> find_event ''a'' w = Some 0 \<and> Event_getTotalExecutions 0 w = 0) \<and>
   (let v = run demo 1 [Call (AddEvent ''a'' (UserFn 0) (Some expiring)), Fire 0]
              (EventEmitter_new ''r'')
    in trace v = [Expired 0 True] \<and> find_event ''a'' v = Some 0 \<and> Event_getTotalExecutions 0 v = 0)"
  by code_simp

end
